theory Spec2Isabelle
  imports Complex_Main "HOL-Library.Word" "HOL-Library.AList" "HOL-Library.Multiset"
begin

section \<open>Velo transfer engine (VeloApp, PeerJS edition)\<close>

text \<open>
  The model follows the class \<open>VeloApp\<close>. A \<open>Uint8Array\<close> is a list of bytes, a
  \<open>File\<close> is its name and its bytes (\<open>file.size\<close> is the number of bytes), a JavaScript
  \<open>Map\<close> that the code iterates is an association list in insertion order
  (\<open>AList.update\<close> is \<open>Map.set\<close>, \<open>AList.delete\<close> is \<open>Map.delete\<close>, \<open>map_of\<close> is \<open>Map.get\<close>); a
  \<open>Map\<close> that is only looked up is a partial function where no property has to go through
  its entries. Timestamps, progress bars, toasts, history and sounds
  are left out; the download started by \<open>receiveFileEnd\<close> is logged in \<open>downloads\<close>.
\<close>

type_synonym byte = "8 word"
type_synonym peerId = string

record File =
  fname :: string
  fbytes :: "byte list"

definition fsize :: "File \<Rightarrow> nat" where
  "fsize f = length (fbytes f)"

text \<open>\<open>file.slice(start, end)\<close> on the bytes of the file.\<close>

definition fileSlice :: "File \<Rightarrow> nat \<Rightarrow> nat \<Rightarrow> byte list" where
  "fileSlice f start end = take (end - start) (drop start (fbytes f))"

text \<open>What \<open>conn.send\<close> is given and what \<open>handleData\<close> receives.\<close>

datatype data =
    Binary "byte list"
  | Handshake string
  | FileStart nat string nat
  | FileEnd nat
  | Unknown

text \<open>
  A PeerJS connection: the messages handed to \<open>conn.send\<close>, oldest first (the channel is
  ordered and reliable, so this is what the remote side receives), and
  \<open>conn.dataChannel.bufferedAmount\<close> when there is a data channel.
\<close>

record conn =
  sent :: "data list"
  dataChannel :: "nat option"

record peerInfo =
  pconn :: conn
  username :: string
  receivingId :: "nat option"

record inbound =
  tname :: string
  tsize :: nat
  chunks :: "byte list list"
  received :: nat

record active =
  asize :: nat
  transferred :: nat

text \<open>
  A call of \<open>sendFile\<close> leaves a closure behind in the event loop: the id, the file and
  the offset, waiting either for the timer that re-runs \<open>sendNextChunk\<close> or for the
  \<open>FileReader\<close> that is reading a slice.
\<close>

datatype phase = TimerPending | ReaderPending "byte list"

record sendLoop =
  lid :: nat
  lfile :: File
  loffset :: nat
  lphase :: phase

text \<open>
  The fields of \<open>VeloApp\<close>, the closures of \<open>sendFile\<close> that are alive
  (\<open>sendLoops\<close>), the number of pending \<open>setTimeout(processTransferQueue)\<close> timers, and
  the log of downloads.
\<close>

record velo =
  connections :: "(peerId \<times> peerInfo) list"
  myUsername :: string
  transfers :: "nat \<rightharpoonup> inbound"
  activeTransfers :: "nat \<rightharpoonup> active"
  transferId :: nat
  totalBytesTransferred :: nat
  isSending :: bool
  sendingQueue :: "File list"
  sendLoops :: "sendLoop list"
  processTimers :: nat
  downloads :: "(string \<times> byte list) list"

subsection \<open>Receive path\<close>

definition receiveFileStart :: "peerId \<Rightarrow> nat \<Rightarrow> string \<Rightarrow> nat \<Rightarrow> velo \<Rightarrow> velo" where
  "receiveFileStart peer i nm sz s =
     s\<lparr>connections :=
         (case map_of (connections s) peer of
            None \<Rightarrow> connections s
          | Some pinfo \<Rightarrow> AList.update peer (pinfo\<lparr>receivingId := Some i\<rparr>) (connections s)),
       transfers := (transfers s)(i \<mapsto> \<lparr>tname = nm, tsize = sz, chunks = [], received = 0\<rparr>),
       activeTransfers := (activeTransfers s)(i \<mapsto> \<lparr>asize = sz, transferred = 0\<rparr>)\<rparr>"

text \<open>
  \<open>!peerInfo.receivingId\<close> holds for \<open>null\<close> and for the number 0; the chunk is then
  ignored, as it is when the locked id has no entry in \<open>transfers\<close>.
\<close>

definition receiveFileChunkRaw :: "peerId \<Rightarrow> byte list \<Rightarrow> velo \<Rightarrow> velo" where
  "receiveFileChunkRaw peer chunk s =
     (case map_of (connections s) peer of
        None \<Rightarrow> s
      | Some pinfo \<Rightarrow>
          (case receivingId pinfo of
             None \<Rightarrow> s
           | Some i \<Rightarrow>
               if i = 0 then s
               else
                 (case transfers s i of
                    None \<Rightarrow> s
                  | Some t \<Rightarrow>
                      let t' = t\<lparr>chunks := chunks t @ [chunk],
                                 received := received t + length chunk\<rparr>
                      in s\<lparr>transfers := (transfers s)(i \<mapsto> t'),
                           totalBytesTransferred := totalBytesTransferred s + length chunk,
                           activeTransfers :=
                             (case activeTransfers s i of
                                None \<Rightarrow> activeTransfers s
                              | Some a \<Rightarrow>
                                  (activeTransfers s)(i \<mapsto> a\<lparr>transferred := received t'\<rparr>))\<rparr>)))"

text \<open>\<open>new Blob(transfer.chunks)\<close> is the concatenation of the chunks in list order.\<close>

definition receiveFileEnd :: "peerId \<Rightarrow> nat \<Rightarrow> velo \<Rightarrow> velo" where
  "receiveFileEnd peer i s =
     (let s1 = s\<lparr>connections :=
                  (case map_of (connections s) peer of
                     None \<Rightarrow> connections s
                   | Some pinfo \<Rightarrow>
                       AList.update peer (pinfo\<lparr>receivingId := None\<rparr>) (connections s))\<rparr>
      in case transfers s1 i of
           None \<Rightarrow> s1
         | Some t \<Rightarrow>
             s1\<lparr>downloads := downloads s1 @ [(tname t, concat (chunks t))],
                transfers := (transfers s1)(i := None),
                activeTransfers := (activeTransfers s1)(i := None)\<rparr>)"

definition handleData :: "peerId \<Rightarrow> velo \<Rightarrow> data \<Rightarrow> velo" where
  "handleData peer s d =
     (case d of
        Binary chunk \<Rightarrow> receiveFileChunkRaw peer chunk s
      | Handshake nm \<Rightarrow>
          (case map_of (connections s) peer of
             None \<Rightarrow> s
           | Some pinfo \<Rightarrow>
               s\<lparr>connections := AList.update peer (pinfo\<lparr>username := nm\<rparr>) (connections s)\<rparr>)
      | FileStart i nm sz \<Rightarrow> receiveFileStart peer i nm sz s
      | FileEnd i \<Rightarrow> receiveFileEnd peer i s
      | Unknown \<Rightarrow> s)"

text \<open>The messages of one connection, handled in the order they were sent.\<close>

definition deliver :: "peerId \<Rightarrow> velo \<Rightarrow> data list \<Rightarrow> velo" where
  "deliver peer s ds = foldl (handleData peer) s ds"

subsection \<open>Send path: the chunks of one file\<close>

definition chunkSize :: nat where
  "chunkSize = 512 * 1024"

text \<open>
  The pair \<open>sendNextChunk\<close> / \<open>reader.onload\<close> of \<open>sendFile\<close>, as the messages it hands to
  every connection from a given offset on: the slice at the offset, then either the next
  round or the \<open>file-end\<close> footer. The backpressure wait in \<open>sendNextChunk\<close> delays a round
  and changes no message; it is modelled with the channels below.
\<close>

function sendChunksFrom :: "nat \<Rightarrow> File \<Rightarrow> nat \<Rightarrow> data list" where
  "sendChunksFrom i f offset =
     (let chunk = fileSlice f offset (offset + chunkSize);
          offset' = offset + length chunk
      in Binary chunk #
           (if offset' < fsize f then sendChunksFrom i f offset' else [FileEnd i]))"
  by pat_completeness auto
termination
  by (relation "measure (\<lambda>(i, f, offset). fsize f - offset)")
     (auto simp: fileSlice_def fsize_def chunkSize_def)

declare sendChunksFrom.simps [simp del]

text \<open>All messages of \<open>sendFile\<close> on one connection, for the id \<open>++this.transferId\<close>.\<close>

definition sendFileMessages :: "nat \<Rightarrow> File \<Rightarrow> data list" where
  "sendFileMessages tid f =
     (let i = tid + 1 in FileStart i (fname f) (fsize f) # sendChunksFrom i f 0)"

subsection \<open>Send path: queue, lock and backpressure\<close>

text \<open>
  \<open>conn.send\<close>: the message joins the channel's queue and \<open>bufferedAmount\<close> grows by the
  bytes of a raw chunk (the few bytes of a serialised control message are not counted).
\<close>

definition byteLength :: "data \<Rightarrow> nat" where
  "byteLength d = (case d of Binary chunk \<Rightarrow> length chunk | _ \<Rightarrow> 0)"

definition conn_send :: "data \<Rightarrow> conn \<Rightarrow> conn" where
  "conn_send d c =
     c\<lparr>sent := sent c @ [d],
       dataChannel := map_option (\<lambda>b. b + byteLength d) (dataChannel c)\<rparr>"

text \<open>\<open>this.connections.forEach(({ conn }) => conn.send(d))\<close>\<close>

definition sendToAll :: "data \<Rightarrow> (peerId \<times> peerInfo) list \<Rightarrow> (peerId \<times> peerInfo) list" where
  "sendToAll d cs = map (\<lambda>(p, pinfo). (p, pinfo\<lparr>pconn := conn_send d (pconn pinfo)\<rparr>)) cs"

text \<open>The sum of \<open>conn.dataChannel.bufferedAmount || 0\<close> over the connections with a data channel.\<close>

definition buffered :: "peerInfo \<Rightarrow> nat" where
  "buffered pinfo = (case dataChannel (pconn pinfo) of None \<Rightarrow> 0 | Some b \<Rightarrow> b)"

definition totalBuffered :: "(peerId \<times> peerInfo) list \<Rightarrow> nat" where
  "totalBuffered cs = sum_list (map (\<lambda>(p, pinfo). buffered pinfo) cs)"

definition highWater :: nat where
  "highWater = 8 * 1024 * 1024"

text \<open>
  The later \<open>velo-app.js\<close> sends to the connections chosen as targets and tests their total
  against \<open>Math.max(2, 4 / targetConnections.length) * 1024 * 1024\<close>; \<open>sendFile\<close> returns
  before that when there is no target. Its chunk size adapts between 256 KB and 2 MB and
  starts at the minimum. The threshold is a real number here, where the code has a double.
  Only this test is modelled: the queue, the choice of targets and the speed test of that
  edition are not.
\<close>

definition bufferThreshold :: "nat \<Rightarrow> real" where
  "bufferThreshold n = max 2 (4 / real n) * 1024 * 1024"

definition backpressure :: "(peerId \<times> peerInfo) list \<Rightarrow> bool" where
  "backpressure targets \<longleftrightarrow> real (totalBuffered targets) > bufferThreshold (length targets)"

definition minChunkSize :: nat where
  "minChunkSize = 256 * 1024"

text \<open>
  \<open>sendNextChunk\<close>: above the threshold the closure goes back to sleep
  (\<open>setTimeout(sendNextChunk, 10)\<close>), otherwise the reader starts on the next slice.
\<close>

definition sendNextChunk :: "sendLoop \<Rightarrow> velo \<Rightarrow> sendLoop" where
  "sendNextChunk l s =
     (if totalBuffered (connections s) > highWater then l\<lparr>lphase := TimerPending\<rparr>
      else l\<lparr>lphase := ReaderPending (fileSlice (lfile l) (loffset l) (loffset l + chunkSize))\<rparr>)"

definition removeAt :: "nat \<Rightarrow> 'a list \<Rightarrow> 'a list" where
  "removeAt k xs = take k xs @ drop (Suc k) xs"

text \<open>
  \<open>reader.onload\<close> of the closure at position \<open>k\<close>: the chunk goes to every connection,
  the offset advances, and either \<open>sendNextChunk\<close> runs again at once or the footer is sent,
  the lock is released and \<open>processTransferQueue\<close> is scheduled.
\<close>

definition onload :: "nat \<Rightarrow> velo \<Rightarrow> velo" where
  "onload k s =
     (if k < length (sendLoops s) then
        (let l = sendLoops s ! k in
         case lphase l of
           TimerPending \<Rightarrow> s
         | ReaderPending chunk \<Rightarrow>
             let offset' = loffset l + length chunk;
                 s1 = s\<lparr>connections := sendToAll (Binary chunk) (connections s),
                        totalBytesTransferred := totalBytesTransferred s + length chunk,
                        activeTransfers :=
                          (case activeTransfers s (lid l) of
                             None \<Rightarrow> activeTransfers s
                           | Some a \<Rightarrow> (activeTransfers s)(lid l \<mapsto> a\<lparr>transferred := offset'\<rparr>))\<rparr>
             in if offset' < fsize (lfile l) then
                  s1\<lparr>sendLoops := (sendLoops s1)[k := sendNextChunk (l\<lparr>loffset := offset'\<rparr>) s1]\<rparr>
                else
                  s1\<lparr>connections := sendToAll (FileEnd (lid l)) (connections s1),
                     activeTransfers := (activeTransfers s1)(lid l := None),
                     isSending := False,
                     processTimers := processTimers s1 + 1,
                     sendLoops := removeAt k (sendLoops s1)\<rparr>)
      else s)"

text \<open>The timer of the closure at position \<open>k\<close> fires: \<open>sendNextChunk\<close> runs again.\<close>

definition timerFires :: "nat \<Rightarrow> velo \<Rightarrow> velo" where
  "timerFires k s =
     (if k < length (sendLoops s) then
        (let l = sendLoops s ! k in
         case lphase l of
           TimerPending \<Rightarrow> s\<lparr>sendLoops := (sendLoops s)[k := sendNextChunk l s]\<rparr>
         | ReaderPending chunk \<Rightarrow> s)
      else s)"

definition sendFile :: "File \<Rightarrow> velo \<Rightarrow> velo" where
  "sendFile f s =
     (let i = transferId s + 1;
          s1 = s\<lparr>isSending := True,
                 transferId := i,
                 activeTransfers := (activeTransfers s)(i \<mapsto> \<lparr>asize = fsize f, transferred = 0\<rparr>),
                 connections := sendToAll (FileStart i (fname f) (fsize f)) (connections s)\<rparr>;
          l = \<lparr>lid = i, lfile = f, loffset = 0, lphase = TimerPending\<rparr>
      in s1\<lparr>sendLoops := sendLoops s1 @ [sendNextChunk l s1]\<rparr>)"

definition processTransferQueue :: "velo \<Rightarrow> velo" where
  "processTransferQueue s =
     (if isSending s then s
      else case sendingQueue s of
             [] \<Rightarrow> s
           | f # rest \<Rightarrow> sendFile f (s\<lparr>sendingQueue := rest\<rparr>))"

definition queueFileForSending :: "File \<Rightarrow> velo \<Rightarrow> velo" where
  "queueFileForSending f s = processTransferQueue (s\<lparr>sendingQueue := sendingQueue s @ [f]\<rparr>)"

definition handleFiles :: "File list \<Rightarrow> velo \<Rightarrow> velo" where
  "handleFiles files s =
     (if connections s = [] then s else fold queueFileForSending files s)"

text \<open>
  The handlers that \<open>setupConnection\<close> installs: on \<open>open\<close> the peer enters
  \<open>connections\<close>, gets the handshake, and the queue is processed; on \<open>close\<close> it leaves.
\<close>

definition connOpen :: "peerId \<Rightarrow> string \<Rightarrow> velo \<Rightarrow> velo" where
  "connOpen peer uname s =
     (let c = conn_send (Handshake (myUsername s)) \<lparr>sent = [], dataChannel = Some 0\<rparr>;
          s1 = s\<lparr>connections :=
                   AList.update peer \<lparr>pconn = c, username = uname, receivingId = None\<rparr>
                     (connections s)\<rparr>
      in processTransferQueue s1)"

definition connClose :: "peerId \<Rightarrow> velo \<Rightarrow> velo" where
  "connClose peer s = s\<lparr>connections := AList.delete peer (connections s)\<rparr>"

text \<open>The transport flushes up to \<open>n\<close> buffered bytes of one channel.\<close>

definition drain :: "peerId \<Rightarrow> nat \<Rightarrow> velo \<Rightarrow> velo" where
  "drain peer n s =
     s\<lparr>connections :=
         map (\<lambda>(p, pinfo).
                if p = peer
                then (p, pinfo\<lparr>pconn := (pconn pinfo)\<lparr>dataChannel :=
                                   map_option (\<lambda>b. b - n) (dataChannel (pconn pinfo))\<rparr>\<rparr>)
                else (p, pinfo))
           (connections s)\<rparr>"

text \<open>One turn of the event loop.\<close>

datatype event =
    FilesChosen "File list"
  | ReaderLoaded nat
  | ChunkTimer nat
  | QueueTimer
  | Opened peerId string
  | Closed peerId
  | Drained peerId nat
  | Received peerId data

definition step :: "velo \<Rightarrow> event \<Rightarrow> velo" where
  "step s e =
     (case e of
        FilesChosen files \<Rightarrow> handleFiles files s
      | ReaderLoaded k \<Rightarrow> onload k s
      | ChunkTimer k \<Rightarrow> timerFires k s
      | QueueTimer \<Rightarrow>
          (if processTimers s = 0 then s
           else processTransferQueue (s\<lparr>processTimers := processTimers s - 1\<rparr>))
      | Opened peer uname \<Rightarrow> connOpen peer uname s
      | Closed peer \<Rightarrow> connClose peer s
      | Drained peer n \<Rightarrow> drain peer n s
      | Received peer d \<Rightarrow> handleData peer s d)"

definition run :: "velo \<Rightarrow> event list \<Rightarrow> velo" where
  "run s es = foldl step s es"

text \<open>The state the constructor leaves.\<close>

definition newApp :: velo where
  "newApp =
     \<lparr>connections = [], myUsername = [], transfers = Map.empty, activeTransfers = Map.empty,
      transferId = 0, totalBytesTransferred = 0, isSending = False, sendingQueue = [],
      sendLoops = [], processTimers = 0, downloads = []\<rparr>"

section \<open>Handshake coordinator (WebRTCManager)\<close>

text \<open>
  A peer connection is modelled by what the candidate buffering depends on: whether
  \<open>pc.remoteDescription\<close> is set, and the candidates handed to \<open>pc.addIceCandidate\<close>, in call
  order. \<open>setRemoteDescription\<close> is asynchronous: \<open>handleOffer\<close> and \<open>handleAnswer\<close> start
  it, and \<open>remoteDescriptionSet\<close> is the moment it completes.
\<close>

type_synonym candidate = string

record peerConnection =
  remoteDescription :: bool
  addedCandidates :: "candidate list"

datatype readyState = Connecting | Open | Closing | ChannelClosed

datatype peerData =
    FileInfo string string nat nat
  | FileComplete string
  | FileChunk string nat "byte list"

record rtcChannel =
  readyState :: readyState
  bufferedAmount :: nat
  channelSent :: "peerData list"

record webrtc =
  peerConnections :: "peerId \<rightharpoonup> peerConnection"
  dataChannels :: "(peerId \<times> rtcChannel) list"
  pendingCandidates :: "peerId \<rightharpoonup> candidate list"

definition createPeerConnection :: "peerId \<Rightarrow> webrtc \<Rightarrow> webrtc" where
  "createPeerConnection peer w =
     (case peerConnections w peer of
        Some pc \<Rightarrow> w
      | None \<Rightarrow>
          w\<lparr>peerConnections :=
              (peerConnections w)(peer \<mapsto> \<lparr>remoteDescription = False, addedCandidates = []\<rparr>),
            pendingCandidates := (pendingCandidates w)(peer \<mapsto> [])\<rparr>)"

definition setupDataChannel :: "peerId \<Rightarrow> webrtc \<Rightarrow> webrtc" where
  "setupDataChannel peer w =
     w\<lparr>dataChannels :=
         AList.update peer \<lparr>readyState = Connecting, bufferedAmount = 0, channelSent = []\<rparr>
           (dataChannels w)\<rparr>"

definition initiateConnection :: "peerId \<Rightarrow> webrtc \<Rightarrow> webrtc" where
  "initiateConnection peer w = setupDataChannel peer (createPeerConnection peer w)"



definition addIceCandidate :: "candidate \<Rightarrow> peerConnection \<Rightarrow> peerConnection" where
  "addIceCandidate c pc = pc\<lparr>addedCandidates := addedCandidates pc @ [c]\<rparr>"

definition pendingOf :: "webrtc \<Rightarrow> peerId \<Rightarrow> candidate list" where
  "pendingOf w peer = (case pendingCandidates w peer of None \<Rightarrow> [] | Some cs \<Rightarrow> cs)"


text \<open>The \<open>onopen\<close> handler that \<open>setupDataChannel\<close> installs on the channel of a peer.\<close>

definition channelOpen :: "peerId \<Rightarrow> webrtc \<Rightarrow> webrtc" where
  "channelOpen peer w =
     (let w1 = (case peerConnections w peer of
                  None \<Rightarrow> w
                | Some pc \<Rightarrow>
                    w\<lparr>peerConnections :=
                        (peerConnections w)(peer \<mapsto> fold addIceCandidate (pendingOf w peer) pc)\<rparr>)
      in w1\<lparr>pendingCandidates := (pendingCandidates w1)(peer \<mapsto> []),
            dataChannels :=
              map (\<lambda>(p, ch). if p = peer then (p, ch\<lparr>readyState := Open\<rparr>) else (p, ch))
                (dataChannels w1)\<rparr>)"


definition newWebRTC :: webrtc where
  "newWebRTC = \<lparr>peerConnections = Map.empty, dataChannels = [], pendingCandidates = Map.empty\<rparr>"









section \<open>Framed transfer path (FileTransferManager)\<close>

text \<open>
  The JSON texts and the header line in front of every chunk are modelled by the
  constructors of \<open>peerData\<close>: \<open>FileInfo id name size chunks\<close>, \<open>FileChunk id index bytes\<close> and
  \<open>FileComplete id\<close>. Transfer ids come from the clock and \<open>Math.random\<close>; the caller of
  the model supplies them. Speed statistics and callbacks to the user interface are left
  out; the blob given to \<open>onFileReceived\<close> is logged in \<open>filesReceived\<close>.
\<close>

datatype status = Sending | Complete | ReceivingNow

record outbound =
  ofile :: File
  ochunks :: nat
  sentChunks :: nat
  bytesTransferred :: nat
  recipients :: "peerId list"
  ostatus :: status

record receiving =
  rname :: string
  rsize :: nat
  rchunks :: nat
  receivedChunks :: "nat \<rightharpoonup> byte list"
  bytesReceived :: nat
  senderId :: peerId
  rstatus :: status

text \<open>
  The closure \<open>sendNextChunk\<close> of one \<open>sendChunks\<close> call: asleep for 100 ms under
  backpressure, waiting for \<open>chunk.arrayBuffer()\<close>, or scheduled for the next animation frame.
\<close>

datatype chunkPhase = Sleeping | Loading "byte list" | Scheduled

record chunkLoop =
  ctransfer :: string
  coffset :: nat
  cindex :: nat
  cphase :: chunkPhase

record ftm =
  rtc :: webrtc
  outTransfers :: "(string \<times> outbound) list"
  receivingFiles :: "(string \<times> receiving) list"
  totalTransferred :: nat
  chunkLoops :: "chunkLoop list"
  filesReceived :: "(string \<times> byte list) list"

definition CHUNK_SIZE :: nat where
  "CHUNK_SIZE = 16 * 1024"

definition MAX_BUFFER_SIZE :: nat where
  "MAX_BUFFER_SIZE = 16 * 1024 * 1024"

definition payloadLength :: "peerData \<Rightarrow> nat" where
  "payloadLength d = (case d of FileChunk t i chunk \<Rightarrow> length chunk | _ \<Rightarrow> 0)"

text \<open>
  \<open>webrtc.broadcast\<close>: every open channel gets the message. As on the PeerJS side,
  \<open>bufferedAmount\<close> counts the bytes of file data handed to the channel: the header line in
  front of a chunk and the JSON control messages are not counted.
\<close>

definition broadcast :: "peerData \<Rightarrow> webrtc \<Rightarrow> webrtc" where
  "broadcast d w =
     w\<lparr>dataChannels :=
         map (\<lambda>(p, ch).
                if readyState ch = Open
                then (p, ch\<lparr>bufferedAmount := bufferedAmount ch + payloadLength d,
                             channelSent := channelSent ch @ [d]\<rparr>)
                else (p, ch))
           (dataChannels w)\<rparr>"

definition getConnectedPeers :: "webrtc \<Rightarrow> peerId list" where
  "getConnectedPeers w = map fst (filter (\<lambda>(p, ch). readyState ch = Open) (dataChannels w))"

text \<open>\<open>Math.ceil(file.size / CHUNK_SIZE)\<close>\<close>

definition chunkCount :: "File \<Rightarrow> nat" where
  "chunkCount f = (fsize f + CHUNK_SIZE - 1) div CHUNK_SIZE"

text \<open>The backpressure test of \<open>sendNextChunk\<close>: some recipient's channel is over the limit.\<close>

definition overLimit :: "webrtc \<Rightarrow> peerId list \<Rightarrow> bool" where
  "overLimit w rs =
     list_ex (\<lambda>p. case map_of (dataChannels w) p of
                      None \<Rightarrow> False
                    | Some ch \<Rightarrow> bufferedAmount ch > MAX_BUFFER_SIZE) rs"

definition updateTransfer :: "string \<Rightarrow> (outbound \<Rightarrow> outbound) \<Rightarrow> ftm \<Rightarrow> ftm" where
  "updateTransfer t g m =
     m\<lparr>outTransfers := map (\<lambda>(k, tr). if k = t then (k, g tr) else (k, tr)) (outTransfers m)\<rparr>"

text \<open>
  One run of the closure at position \<open>k\<close>, up to its next suspension. Past the end of
  the file the transfer is complete and the closure is gone; under backpressure it sleeps;
  otherwise it waits for the bytes of the next slice.
\<close>

definition sendNextChunk_ftm :: "nat \<Rightarrow> ftm \<Rightarrow> ftm" where
  "sendNextChunk_ftm k m =
     (if k < length (chunkLoops m) then
        (let l = chunkLoops m ! k in
         case map_of (outTransfers m) (ctransfer l) of
           None \<Rightarrow> m
         | Some tr \<Rightarrow>
             if coffset l \<ge> fsize (ofile tr) then
               (updateTransfer (ctransfer l) (\<lambda>tr. tr\<lparr>ostatus := Complete\<rparr>) m)
                 \<lparr>rtc := broadcast (FileComplete (ctransfer l)) (rtc m),
                  chunkLoops := removeAt k (chunkLoops m)\<rparr>
             else if overLimit (rtc m) (recipients tr) then
               m\<lparr>chunkLoops := (chunkLoops m)[k := l\<lparr>cphase := Sleeping\<rparr>]\<rparr>
             else
               m\<lparr>chunkLoops :=
                   (chunkLoops m)[k := l\<lparr>cphase :=
                      Loading (fileSlice (ofile tr) (coffset l) (coffset l + CHUNK_SIZE))\<rparr>]\<rparr>)
      else m)"


text \<open>
  \<open>sendFile\<close>, with the fresh transfer id as a parameter: the transfer is registered with
  status \<open>sending\<close>, announced, and \<open>sendChunks\<close> runs \<open>sendNextChunk\<close> for the first time.
\<close>

definition sendFile_ftm :: "string \<Rightarrow> File \<Rightarrow> ftm \<Rightarrow> ftm" where
  "sendFile_ftm t f m =
     (let connectedPeers = getConnectedPeers (rtc m) in
      if connectedPeers = [] then m
      else
        (let tr = \<lparr>ofile = f, ochunks = chunkCount f, sentChunks = 0, bytesTransferred = 0,
                    recipients = connectedPeers, ostatus = Sending\<rparr>;
             m1 = m\<lparr>outTransfers := AList.update t tr (outTransfers m),
                    rtc := broadcast (FileInfo t (fname f) (fsize f) (chunkCount f)) (rtc m),
                    chunkLoops := chunkLoops m @
                      [\<lparr>ctransfer = t, coffset = 0, cindex = 0, cphase = Scheduled\<rparr>]\<rparr>
         in sendNextChunk_ftm (length (chunkLoops m)) m1))"

text \<open>\<open>PyShareApp.handleFiles\<close>: every chosen file is handed to \<open>sendFile\<close> at once.\<close>

definition handleFiles_ftm :: "(string \<times> File) list \<Rightarrow> ftm \<Rightarrow> ftm" where
  "handleFiles_ftm files m =
     (if getConnectedPeers (rtc m) = [] then m
      else fold (\<lambda>(t, f). sendFile_ftm t f) files m)"

text \<open>The outbound transfers whose status is \<open>sending\<close>.\<close>

definition sendingNow :: "ftm \<Rightarrow> string list" where
  "sendingNow m = map fst (filter (\<lambda>(t, tr). ostatus tr = Sending) (outTransfers m))"

definition handleFileInfo :: "peerId \<Rightarrow> string \<Rightarrow> string \<Rightarrow> nat \<Rightarrow> nat \<Rightarrow> ftm \<Rightarrow> ftm" where
  "handleFileInfo peer t nm sz n m =
     m\<lparr>receivingFiles := AList.update t
         \<lparr>rname = nm, rsize = sz, rchunks = n, receivedChunks = Map.empty, bytesReceived = 0,
          senderId = peer, rstatus = ReceivingNow\<rparr> (receivingFiles m)\<rparr>"

text \<open>The transfer is found by the id in the chunk's header; \<open>peerId\<close> is not looked at.\<close>

definition handleFileChunk :: "peerId \<Rightarrow> string \<Rightarrow> nat \<Rightarrow> byte list \<Rightarrow> ftm \<Rightarrow> ftm" where
  "handleFileChunk peer t idx chunkData m =
     (case map_of (receivingFiles m) t of
        None \<Rightarrow> m
      | Some r \<Rightarrow>
          m\<lparr>receivingFiles := AList.update t
                (r\<lparr>receivedChunks := (receivedChunks r)(idx \<mapsto> chunkData),
                   bytesReceived := bytesReceived r + length chunkData\<rparr>) (receivingFiles m),
            totalTransferred := totalTransferred m + length chunkData\<rparr>)"

text \<open>The loop \<open>for (i = 0; i < receiving.chunks; i++)\<close> that collects the chunks present.\<close>

definition reassemble :: "receiving \<Rightarrow> byte list" where
  "reassemble r = concat (List.map_filter (receivedChunks r) [0..<rchunks r])"

definition handleFileComplete :: "peerId \<Rightarrow> string \<Rightarrow> ftm \<Rightarrow> ftm" where
  "handleFileComplete peer t m =
     (case map_of (receivingFiles m) t of
        None \<Rightarrow> m
      | Some r \<Rightarrow>
          m\<lparr>filesReceived := filesReceived m @ [(rname r, reassemble r)],
            receivingFiles := AList.delete t (receivingFiles m)\<rparr>)"

definition handleMessage :: "peerId \<Rightarrow> ftm \<Rightarrow> peerData \<Rightarrow> ftm" where
  "handleMessage peer m d =
     (case d of
        FileInfo t nm sz n \<Rightarrow> handleFileInfo peer t nm sz n m
      | FileChunk t idx chunkData \<Rightarrow> handleFileChunk peer t idx chunkData m
      | FileComplete t \<Rightarrow> handleFileComplete peer t m)"

text \<open>
  The messages \<open>sendChunks\<close> broadcasts from an offset and a chunk index on: the rounds of
  \<open>sendNextChunk\<close> without their suspensions.
\<close>

function sendChunks :: "string \<Rightarrow> File \<Rightarrow> nat \<Rightarrow> nat \<Rightarrow> peerData list" where
  "sendChunks t f offset idx =
     (if offset \<ge> fsize f then [FileComplete t]
      else FileChunk t idx (fileSlice f offset (offset + CHUNK_SIZE)) #
             sendChunks t f (offset + CHUNK_SIZE) (idx + 1))"
  by pat_completeness auto
termination
  by (relation "measure (\<lambda>(t, f, offset, idx). fsize f - offset)")
     (auto simp: CHUNK_SIZE_def)

declare sendChunks.simps [simp del]

definition sendFileMessages_ftm :: "string \<Rightarrow> File \<Rightarrow> peerData list" where
  "sendFileMessages_ftm t f = FileInfo t (fname f) (fsize f) (chunkCount f) # sendChunks t f 0 0"






section \<open>Rendezvous service (the WebSocket server)\<close>

text \<open>
  A socket is identified by the user id the server gave it. \<open>rooms\<close> maps a code to a room
  object; room objects live in \<open>heap\<close>, because \<open>joinRoom\<close> keeps a reference to the room
  it looked up while \<open>leaveRoom\<close> may take that room out of the table. \<open>room.users\<close> is a
  \<open>Map\<close> in insertion order from user id to user name. \<open>Math.random\<close> is the sequence
  \<open>mathRandom\<close> of its future results, \<open>randomCalls\<close> of which are used up. Every
  \<open>ws.send\<close> is logged in \<open>outbox\<close> with the socket it went to.
\<close>

type_synonym userId = string

record room =
  code :: string
  users :: "(userId \<times> string) list"

datatype serverMessage =
    RoomCreated string "(userId \<times> string) list"
  | RoomJoined string "(userId \<times> string) list"
  | UserJoined "userId \<times> string" "(userId \<times> string) list"
  | UserLeft userId "(userId \<times> string) list"
  | ErrorMessage string

record server =
  rooms :: "string \<rightharpoonup> nat"
  heap :: "nat \<Rightarrow> room"
  nextRoom :: nat
  wsRoomCode :: "userId \<Rightarrow> string option"
  wsUsername :: "userId \<Rightarrow> string option"
  outbox :: "(userId \<times> serverMessage) list"
  mathRandom :: "nat \<Rightarrow> real"
  randomCalls :: nat

definition chars :: string where
  "chars = ''ABCDEFGHJKLMNPQRSTUVWXYZ23456789''"

text \<open>\<open>String.prototype.charAt\<close>: the empty string outside the string.\<close>

definition charAt :: "string \<Rightarrow> nat \<Rightarrow> string" where
  "charAt str i = (if i < length str then [str ! i] else [])"

text \<open>\<open>Math.floor(Math.random() * chars.length)\<close> for the result \<open>r\<close> of \<open>Math.random()\<close>.\<close>

definition randomIndex :: "real \<Rightarrow> nat" where
  "randomIndex r = nat \<lfloor>r * real (length chars)\<rfloor>"

definition generateRoomCode :: "(nat \<Rightarrow> real) \<Rightarrow> nat \<Rightarrow> string" where
  "generateRoomCode rnd n =
     foldl (\<lambda>c i. c @ charAt chars (randomIndex (rnd (n + i)))) [] [0..<6]"

text \<open>
  \<open>let roomCode = generateRoomCode(); while (rooms.has(roomCode)) roomCode = generateRoomCode();\<close>
  The result is the code and the number of random numbers used; \<open>None\<close> is a loop that
  never ends.
\<close>

partial_function (option) freshRoomCode ::
  "(string \<rightharpoonup> nat) \<Rightarrow> (nat \<Rightarrow> real) \<Rightarrow> nat \<Rightarrow> (string \<times> nat) option" where
  "freshRoomCode rms rnd n =
     (if rms (generateRoomCode rnd n) \<noteq> None then freshRoomCode rms rnd (n + 6)
      else Some (generateRoomCode rnd n, n + 6))"

definition wsSend :: "userId \<Rightarrow> serverMessage \<Rightarrow> server \<Rightarrow> server" where
  "wsSend ws msg s = s\<lparr>outbox := outbox s @ [(ws, msg)]\<rparr>"

definition createRoom :: "userId \<Rightarrow> string \<Rightarrow> server \<Rightarrow> server option" where
  "createRoom ws uname s =
     (case freshRoomCode (rooms s) (mathRandom s) (randomCalls s) of
        None \<Rightarrow> None
      | Some (roomCode, n) \<Rightarrow>
          Some (wsSend ws (RoomCreated roomCode [(ws, uname)])
            (s\<lparr>rooms := (rooms s)(roomCode \<mapsto> nextRoom s),
               heap := (heap s)(nextRoom s := \<lparr>code = roomCode, users = [(ws, uname)]\<rparr>),
               nextRoom := nextRoom s + 1,
               wsRoomCode := (wsRoomCode s)(ws := Some roomCode),
               wsUsername := (wsUsername s)(ws := Some uname),
               randomCalls := n\<rparr>)))"

text \<open>\<open>room.users.forEach(user => user.ws.send(msg))\<close>, in the order of the \<open>Map\<close>.\<close>

definition sendEach :: "userId list \<Rightarrow> serverMessage \<Rightarrow> server \<Rightarrow> server" where
  "sendEach us msg s = fold (\<lambda>u. wsSend u msg) us s"

definition truthy :: "string option \<Rightarrow> bool" where
  "truthy v = (case v of None \<Rightarrow> False | Some str \<Rightarrow> str \<noteq> [])"

definition leaveRoom :: "userId \<Rightarrow> server \<Rightarrow> server" where
  "leaveRoom ws s =
     (case wsRoomCode s ws of
        None \<Rightarrow> s
      | Some rc \<Rightarrow>
          if rc = [] then s
          else
            (case rooms s rc of
               None \<Rightarrow> s
             | Some a \<Rightarrow>
                 let r = heap s a;
                     r' = r\<lparr>users := AList.delete ws (users r)\<rparr>;
                     s1 = s\<lparr>heap := (heap s)(a := r')\<rparr>;
                     userList = users r';
                     s2 = sendEach (map fst userList) (UserLeft ws userList) s1;
                     s3 = (if users r' = [] then s2\<lparr>rooms := (rooms s2)(rc := None)\<rparr> else s2)
                 in s3\<lparr>wsRoomCode := (wsRoomCode s3)(ws := None)\<rparr>))"

text \<open>
  \<open>toUpperCase\<close> on ASCII text, which is what the strings of this model hold: the letters
  a to z are mapped and every other character is kept. JavaScript also maps, and sometimes
  expands, letters beyond ASCII; a room code that holds one is outside this model.
\<close>

definition upperChar :: "char \<Rightarrow> char" where
  "upperChar c =
     (case map_of (zip ''abcdefghijklmnopqrstuvwxyz'' ''ABCDEFGHIJKLMNOPQRSTUVWXYZ'') c of
        None \<Rightarrow> c
      | Some u \<Rightarrow> u)"

definition toUpperCase :: "string \<Rightarrow> string" where
  "toUpperCase str = map upperChar str"

definition joinRoom :: "userId \<Rightarrow> string \<Rightarrow> string \<Rightarrow> server \<Rightarrow> server" where
  "joinRoom ws roomCode uname s =
     (case rooms s (toUpperCase roomCode) of
        None \<Rightarrow> wsSend ws (ErrorMessage ''Room not found'') s
      | Some a \<Rightarrow>
          let s1 = (if truthy (wsRoomCode s ws) then leaveRoom ws s else s);
              r = heap s1 a;
              r' = r\<lparr>users := AList.update ws uname (users r)\<rparr>;
              s2 = s1\<lparr>heap := (heap s1)(a := r'),
                      wsRoomCode := (wsRoomCode s1)(ws := Some (toUpperCase roomCode)),
                      wsUsername := (wsUsername s1)(ws := Some uname)\<rparr>;
              userList = users r';
              s3 = wsSend ws (RoomJoined (toUpperCase roomCode) userList) s2
          in sendEach (filter (\<lambda>u. u \<noteq> ws) (map fst userList))
               (UserJoined (ws, uname) userList) s3)"

datatype request =
    CreateRoom userId string
  | JoinRoom userId string string
  | LeaveRoom userId
  | Disconnect userId

definition handleRequest :: "request \<Rightarrow> server \<Rightarrow> server option" where
  "handleRequest q s =
     (case q of
        CreateRoom ws uname \<Rightarrow> createRoom ws uname s
      | JoinRoom ws roomCode uname \<Rightarrow> Some (joinRoom ws roomCode uname s)
      | LeaveRoom ws \<Rightarrow> Some (leaveRoom ws s)
      | Disconnect ws \<Rightarrow> Some (leaveRoom ws s))"

fun serve :: "request list \<Rightarrow> server \<Rightarrow> server option" where
  "serve [] s = Some s"
| "serve (q # qs) s = (case handleRequest q s of None \<Rightarrow> None | Some s' \<Rightarrow> serve qs s')"

definition newServer :: "(nat \<Rightarrow> real) \<Rightarrow> server" where
  "newServer rnd =
     \<lparr>rooms = Map.empty, heap = (\<lambda>a. \<lparr>code = [], users = []\<rparr>), nextRoom = 0,
      wsRoomCode = (\<lambda>ws. None), wsUsername = (\<lambda>ws. None), outbox = [],
      mathRandom = rnd, randomCalls = 0\<rparr>"

text \<open>The rooms of the table that have a user among their members.\<close>

definition roomsOf :: "server \<Rightarrow> userId \<Rightarrow> string set" where
  "roomsOf s u = {rc. \<exists>a. rooms s rc = Some a \<and> u \<in> fst ` set (users (heap s a))}"

text \<open>The member list of the live room with a code, as the server would list it.\<close>

definition membersOf :: "server \<Rightarrow> string \<Rightarrow> (userId \<times> string) list option" where
  "membersOf s rc = map_option (\<lambda>a. users (heap s a)) (rooms s rc)"

section \<open>Vocabulary of the properties\<close>

subsection \<open>Velo transfer engine\<close>

text \<open>Messages of several connections, handled in their order of arrival.\<close>

definition receiveAll :: "velo \<Rightarrow> (peerId \<times> data) list \<Rightarrow> velo" where
  "receiveAll s es = foldl (\<lambda>s (p, d). handleData p s d) s es"

text \<open>The messages of one peer among them.\<close>

definition streamOf :: "peerId \<Rightarrow> (peerId \<times> data) list \<Rightarrow> data list" where
  "streamOf p es = map snd (filter (\<lambda>e. fst e = p) es)"

text \<open>A control message that carries the transfer id \<open>i\<close>.\<close>

definition names :: "nat \<Rightarrow> data \<Rightarrow> bool" where
  "names i d = (case d of FileStart j nm sz \<Rightarrow> j = i | FileEnd j \<Rightarrow> j = i | _ \<Rightarrow> False)"

definition isConnected :: "velo \<Rightarrow> peerId \<Rightarrow> bool" where
  "isConnected s p = (map_of (connections s) p \<noteq> None)"

text \<open>The peer's \<open>receivingId\<close> is \<open>i\<close>.\<close>

definition lockedTo :: "velo \<Rightarrow> peerId \<Rightarrow> nat \<Rightarrow> bool" where
  "lockedTo s p i =
     (case map_of (connections s) p of None \<Rightarrow> False | Some pinfo \<Rightarrow> receivingId pinfo = Some i)"

text \<open>
  The peer has announced a transfer that has not ended: it is locked to an id that has an
  entry in \<open>transfers\<close>.
\<close>

definition activeInbound :: "velo \<Rightarrow> peerId \<Rightarrow> bool" where
  "activeInbound s peer =
     (case map_of (connections s) peer of
        None \<Rightarrow> False
      | Some pinfo \<Rightarrow>
          (case receivingId pinfo of None \<Rightarrow> False | Some i \<Rightarrow> transfers s i \<noteq> None))"

text \<open>The bytes-received counter and the declared size of the inbound transfer \<open>i\<close>.\<close>

definition receivedOf :: "velo \<Rightarrow> nat \<Rightarrow> nat" where
  "receivedOf s i = (case transfers s i of None \<Rightarrow> 0 | Some t \<Rightarrow> received t)"

definition declaredOf :: "velo \<Rightarrow> nat \<Rightarrow> nat" where
  "declaredOf s i = (case transfers s i of None \<Rightarrow> 0 | Some t \<Rightarrow> tsize t)"

text \<open>
  The peer \<open>p\<close> is in the middle of transfer \<open>i\<close>, whose record is \<open>t\<close>, and no other peer
  is locked to the same id; and the state before \<open>p\<close> announces \<open>i\<close>.
\<close>

definition streaming :: "velo \<Rightarrow> peerId \<Rightarrow> nat \<Rightarrow> inbound \<Rightarrow> bool" where
  "streaming s p i t \<longleftrightarrow>
     lockedTo s p i \<and> i \<noteq> 0 \<and> transfers s i = Some t \<and> (\<forall>q. q \<noteq> p \<longrightarrow> \<not> lockedTo s q i)"

definition ready :: "velo \<Rightarrow> peerId \<Rightarrow> nat \<Rightarrow> bool" where
  "ready s p i \<longleftrightarrow> isConnected s p \<and> (\<forall>q. q \<noteq> p \<longrightarrow> \<not> lockedTo s q i)"

text \<open>No control message of a peer other than \<open>p\<close> carries the id \<open>i\<close>.\<close>

definition othersAvoid :: "peerId \<Rightarrow> nat \<Rightarrow> (peerId \<times> data) list \<Rightarrow> bool" where
  "othersAvoid p i es = list_all (\<lambda>(q, d). q = p \<or> \<not> names i d) es"

text \<open>Example states and inputs: an app with one and with two connected peers.\<close>

definition oneGuest :: velo where
  "oneGuest = connOpen ''VELO-A'' ''ann'' newApp"

definition twoGuests :: velo where
  "twoGuests = connOpen ''VELO-B'' ''bob'' oneGuest"

definition fileA :: File where
  "fileA = \<lparr>fname = ''a.bin'', fbytes = [1, 2]\<rparr>"

definition fileB :: File where
  "fileB = \<lparr>fname = ''b.bin'', fbytes = [3, 4]\<rparr>"

text \<open>
  A freshly started app of a user, and what it does with its first file: the connection to
  the receiver opens, the file is chosen, the reader delivers its only slice.
\<close>

definition senderApp :: "string \<Rightarrow> velo" where
  "senderApp nm = newApp\<lparr>myUsername := nm\<rparr>"

definition firstFile :: "File \<Rightarrow> event list" where
  "firstFile f = [Opened ''VELO-R'' ''rcv'', FilesChosen [f], ReaderLoaded 0]"

text \<open>
  What the receiver gets when two such peers send their first file at the same time: both
  transfers have the id 1.
\<close>

definition overlapping :: "(peerId \<times> data) list" where
  "overlapping =
     [(''VELO-A'', Handshake ''ann''), (''VELO-B'', Handshake ''bob''),
      (''VELO-A'', FileStart 1 ''a.bin'' 2), (''VELO-B'', FileStart 1 ''b.bin'' 2),
      (''VELO-A'', Binary [1, 2]), (''VELO-B'', Binary [3, 4]),
      (''VELO-A'', FileEnd 1), (''VELO-B'', FileEnd 1)]"

text \<open>The same arrivals when the second peer is at its second file.\<close>

definition disjointIds :: "(peerId \<times> data) list" where
  "disjointIds =
     [(''VELO-A'', FileStart 1 ''a.bin'' 2), (''VELO-B'', FileStart 2 ''b.bin'' 2),
      (''VELO-A'', Binary [1, 2]), (''VELO-B'', Binary [3, 4]),
      (''VELO-A'', FileEnd 1), (''VELO-B'', FileEnd 2)]"

text \<open>The lock of \<open>sendFile\<close>: at most one closure is alive, and only while \<open>isSending\<close>.\<close>

definition serialized :: "velo \<Rightarrow> bool" where
  "serialized s \<longleftrightarrow> length (sendLoops s) \<le> 1 \<and> (sendLoops s \<noteq> [] \<longrightarrow> isSending s)"

text \<open>No connection opens or closes in a sequence of events.\<close>

definition fixedFanout :: "event list \<Rightarrow> bool" where
  "fixedFanout es = list_all (\<lambda>e. case e of Opened p u \<Rightarrow> False | Closed p \<Rightarrow> False | _ \<Rightarrow> True) es"




text \<open>An app with \<open>W\<close> connected peers and empty channels, and a file of exactly one chunk.\<close>

definition idleApp :: "nat \<Rightarrow> velo" where
  "idleApp W =
     newApp\<lparr>connections :=
       map (\<lambda>i. (replicate i CHR ''x'',
                 \<lparr>pconn = \<lparr>sent = [], dataChannel = Some 0\<rparr>, username = [], receivingId = None\<rparr>))
         [0..<W]\<rparr>"



text \<open>What every connection has been handed so far, in the order of \<open>connections\<close>.\<close>

definition sentLists :: "velo \<Rightarrow> data list list" where
  "sentLists s = map (\<lambda>(p, pinfo). sent (pconn pinfo)) (connections s)"

text \<open>No further file is chosen in a sequence of events.\<close>

definition noFilesChosen :: "event list \<Rightarrow> bool" where
  "noFilesChosen es = list_all (\<lambda>e. case e of FilesChosen files \<Rightarrow> False | _ \<Rightarrow> True) es"

text \<open>
  The one transfer \<open>i\<close> of file \<open>f\<close> is on its way to the lists \<open>goal\<close>: either it is over and
  every connection has its list, or its closure is alive and what is still to come from
  its offset on completes every list.
\<close>

definition emitting :: "velo \<Rightarrow> data list list \<Rightarrow> nat \<Rightarrow> File \<Rightarrow> bool" where
  "emitting s goal i f \<longleftrightarrow>
     sendingQueue s = [] \<and>
     (case sendLoops s of
        [] \<Rightarrow> \<not> isSending s \<and> sentLists s = goal
      | [l] \<Rightarrow>
          isSending s \<and> lid l = i \<and> lfile l = f
          \<and> (\<forall>c. lphase l = ReaderPending c \<longrightarrow> c = fileSlice f (loffset l) (loffset l + chunkSize))
          \<and> map (\<lambda>xs. xs @ sendChunksFrom i f (loffset l)) (sentLists s) = goal
      | _ \<Rightarrow> False)"



definition waiting :: "event list" where
  "waiting = [Opened ''VELO-A'' ''ann'', FilesChosen [fileA]]"

subsection \<open>Handshake coordinator and framed transfer path\<close>




text \<open>The messages of one channel, handled in the order they were sent.\<close>

definition deliver_ftm :: "peerId \<Rightarrow> ftm \<Rightarrow> peerData list \<Rightarrow> ftm" where
  "deliver_ftm peer m ds = foldl (handleMessage peer) m ds"

text \<open>The chunk with index \<open>j\<close> of a file.\<close>

definition block :: "File \<Rightarrow> nat \<Rightarrow> byte list" where
  "block f j = fileSlice f (j * CHUNK_SIZE) (j * CHUNK_SIZE + CHUNK_SIZE)"

text \<open>
  The receiver has the announcement of transfer \<open>t\<close> of file \<open>f\<close> and every chunk below
  the index \<open>idx\<close>.
\<close>

definition collected :: "ftm \<Rightarrow> string \<Rightarrow> File \<Rightarrow> nat \<Rightarrow> bool" where
  "collected m t f idx \<longleftrightarrow>
     (case map_of (receivingFiles m) t of
        None \<Rightarrow> False
      | Some r \<Rightarrow> rname r = fname f \<and> rchunks r = chunkCount f \<and> idx \<le> chunkCount f
                  \<and> (\<forall>j < idx. receivedChunks r j = Some (block f j)))"

text \<open>A \<open>FileTransferManager\<close> with one open data channel.\<close>

definition oneChannel :: ftm where
  "oneChannel =
     \<lparr>rtc = channelOpen ''peer'' (initiateConnection ''peer'' newWebRTC),
      outTransfers = [], receivingFiles = [], totalTransferred = 0, chunkLoops = [],
      filesReceived = []\<rparr>"

text \<open>
  Messages of several channels, handled in their order of arrival; the transfer a message
  names; and the messages that name a given transfer, whoever sent them.
\<close>

definition receiveAll_ftm :: "ftm \<Rightarrow> (peerId \<times> peerData) list \<Rightarrow> ftm" where
  "receiveAll_ftm m es = foldl (\<lambda>m (p, d). handleMessage p m d) m es"

definition transferOf :: "peerData \<Rightarrow> string" where
  "transferOf d = (case d of FileInfo t nm sz n \<Rightarrow> t | FileChunk t idx c \<Rightarrow> t | FileComplete t \<Rightarrow> t)"

definition streamOfId :: "string \<Rightarrow> (peerId \<times> peerData) list \<Rightarrow> peerData list" where
  "streamOfId t es = map snd (filter (\<lambda>e. transferOf (snd e) = t) es)"

text \<open>The bytes-received counter and the announced size of the inbound transfer \<open>t\<close>.\<close>

definition bytesReceivedOf :: "ftm \<Rightarrow> string \<Rightarrow> nat" where
  "bytesReceivedOf m t = (case map_of (receivingFiles m) t of None \<Rightarrow> 0 | Some r \<Rightarrow> bytesReceived r)"

definition announcedSize :: "ftm \<Rightarrow> string \<Rightarrow> nat" where
  "announcedSize m t = (case map_of (receivingFiles m) t of None \<Rightarrow> 0 | Some r \<Rightarrow> rsize r)"

text \<open>The peer has announced a transfer that has not ended: some entry has it as sender.\<close>

definition activeInbound_ftm :: "ftm \<Rightarrow> peerId \<Rightarrow> bool" where
  "activeInbound_ftm m peer = list_ex (\<lambda>(t, r). senderId r = peer) (receivingFiles m)"

text \<open>
  Two peers send a file each at the same time, under the ids their senders made up; and a
  receiver to which \<open>peer\<close> has announced the two bytes of \<open>a.bin\<close>.
\<close>

definition framedOverlap :: "(peerId \<times> peerData) list" where
  "framedOverlap =
     [(''p1'', FileInfo ''t1'' ''a.bin'' 2 1), (''p2'', FileInfo ''t2'' ''b.bin'' 2 1),
      (''p1'', FileChunk ''t1'' 0 [1, 2]), (''p2'', FileChunk ''t2'' 0 [3, 4]),
      (''p1'', FileComplete ''t1''), (''p2'', FileComplete ''t2'')]"

definition announced :: ftm where
  "announced = handleMessage ''peer'' oneChannel (FileInfo ''t1'' ''a.bin'' 2 1)"




















subsection \<open>Rendezvous service\<close>

text \<open>\<open>Math.random\<close> returns numbers from 0 up to, not including, 1.\<close>

definition randomOK :: "(nat \<Rightarrow> real) \<Rightarrow> bool" where
  "randomOK rnd \<longleftrightarrow> (\<forall>n. 0 \<le> rnd n \<and> rnd n < 1)"

text \<open>Every entry of the table points to an allocated room object that carries its code.\<close>

definition tableOK :: "server \<Rightarrow> bool" where
  "tableOK s \<longleftrightarrow> (\<forall>c a. rooms s c = Some a \<longrightarrow> code (heap s a) = c \<and> a < nextRoom s)"

text \<open>No two different live rooms have the same code.\<close>

definition distinctCodes :: "server \<Rightarrow> bool" where
  "distinctCodes s \<longleftrightarrow>
     (\<forall>c1 c2 a1 a2. rooms s c1 = Some a1 \<and> rooms s c2 = Some a2 \<and> a1 \<noteq> a2
        \<longrightarrow> code (heap s a1) \<noteq> code (heap s a2))"

definition confusable :: "char set" where
  "confusable = {CHR ''0'', CHR ''O'', CHR ''1'', CHR ''I''}"

text \<open>
  An example: the random numbers are six times 0 and then always one half, so the first
  code is \<open>AAAAAA\<close> and the next one \<open>SSSSSS\<close>.
\<close>

definition coin :: "nat \<Rightarrow> real" where
  "coin n = (if n < 6 then 0 else 1 / 2)"

definition lobby :: server where
  "lobby = newServer coin"

text \<open>
  Another: twelve times 0 and then always one half, so the first two draws are both
  \<open>AAAAAA\<close> and the third is \<open>SSSSSS\<close>.
\<close>

definition echo :: "nat \<Rightarrow> real" where
  "echo n = (if n < 12 then 0 else 1 / 2)"

section \<open>Properties\<close>

subsection \<open>Velo transfer engine: receiving\<close>

lemmas velo_eval =
  oneGuest_def twoGuests_def connOpen_def newApp_def conn_send_def processTransferQueue_def
  byteLength_def handleData_def receiveFileStart_def receiveFileChunkRaw_def
  receiveFileEnd_def Let_def sendFileMessages_def fsize_def fileSlice_def chunkSize_def
  fileA_def fileB_def

lemmas send_eval =
  run_def step_def handleFiles_def queueFileForSending_def processTransferQueue_def
  sendFile_def sendNextChunk_def onload_def timerFires_def sendToAll_def conn_send_def
  byteLength_def totalBuffered_def buffered_def highWater_def chunkSize_def connOpen_def
  newApp_def fileSlice_def fsize_def removeAt_def Let_def fileA_def fileB_def

lemmas ftm_eval =
  oneChannel_def handleFiles_ftm_def sendFile_ftm_def sendNextChunk_ftm_def
  getConnectedPeers_def broadcast_def payloadLength_def chunkCount_def overLimit_def
  updateTransfer_def sendingNow_def channelOpen_def initiateConnection_def
  setupDataChannel_def createPeerConnection_def newWebRTC_def pendingOf_def CHUNK_SIZE_def
  MAX_BUFFER_SIZE_def fileSlice_def fsize_def Let_def fileA_def fileB_def

lemmas framed_eval =
  oneChannel_def handleMessage_def handleFileInfo_def handleFileChunk_def
  handleFileComplete_def sendFileMessages_ftm_def chunkCount_def CHUNK_SIZE_def fsize_def
  fileSlice_def fileA_def


lemma fileSlice_drop:
  "fileSlice f offset (offset + n) @ drop (offset + length (fileSlice f offset (offset + n))) (fbytes f)
     = drop offset (fbytes f)"
proof -
  have "drop (offset + length (take n (drop offset (fbytes f)))) (fbytes f)
        = drop (length (take n (drop offset (fbytes f)))) (drop offset (fbytes f))"
    by (simp add: add.commute)
  also have "\<dots> = drop n (drop offset (fbytes f))"
    by (cases "n \<le> length (drop offset (fbytes f))") (simp_all add: min_def)
  finally have "drop (offset + length (take n (drop offset (fbytes f)))) (fbytes f)
        = drop n (drop offset (fbytes f))" .
  then show ?thesis
    unfolding fileSlice_def using append_take_drop_id[of n "drop offset (fbytes f)"] by simp
qed

lemma fileSlice_length: "length (fileSlice f offset (offset + n)) = min n (fsize f - offset)"
  by (simp add: fileSlice_def fsize_def min.commute)

text \<open>The rounds of \<open>sendFile\<close> cut the rest of the file into chunks and end with the footer.\<close>

lemma sendChunksFrom_shape:
  "\<exists>cs. sendChunksFrom i f offset = map Binary cs @ [FileEnd i] \<and> concat cs = drop offset (fbytes f)"
proof (induction i f offset rule: sendChunksFrom.induct)
  case (1 i f offset)
  let ?c = "fileSlice f offset (offset + chunkSize)"
  have sd: "?c @ drop (offset + length ?c) (fbytes f) = drop offset (fbytes f)"
    by (rule fileSlice_drop)
  show ?case
  proof (cases "offset + length ?c < fsize f")
    case True
    from 1[OF refl refl True] obtain cs where
      cs: "sendChunksFrom i f (offset + length ?c) = map Binary cs @ [FileEnd i]"
          "concat cs = drop (offset + length ?c) (fbytes f)" by blast
    have "sendChunksFrom i f offset = map Binary (?c # cs) @ [FileEnd i]"
      using True cs(1) by (subst sendChunksFrom.simps) (simp add: Let_def)
    moreover have "concat (?c # cs) = drop offset (fbytes f)" using cs(2) sd by simp
    ultimately show ?thesis by blast
  next
    case False
    then have "drop (offset + length ?c) (fbytes f) = []" by (simp add: fsize_def)
    with sd have c: "?c = drop offset (fbytes f)" by simp
    have "sendChunksFrom i f offset = map Binary [?c] @ [FileEnd i]"
      using False by (subst sendChunksFrom.simps) (simp add: Let_def)
    moreover have "concat [?c] = drop offset (fbytes f)" using c by simp
    ultimately show ?thesis by blast
  qed
qed

text \<open>What a message of one peer does to the lock and the transfer of another.\<close>

lemma lockedTo_other:
  assumes "q \<noteq> p"
  shows "lockedTo (handleData q s d) p i = lockedTo s p i"
  using assms
  by (cases d) (auto simp: lockedTo_def handleData_def receiveFileChunkRaw_def
      receiveFileStart_def receiveFileEnd_def Let_def update_conv' split: option.splits)

lemma isConnected_handleData: "isConnected (handleData q s d) p = isConnected s p"
  by (cases d) (auto simp: isConnected_def handleData_def receiveFileChunkRaw_def
      receiveFileStart_def receiveFileEnd_def Let_def update_conv' split: option.splits)

lemma lockedTo_self:
  assumes "\<not> lockedTo s q i" "\<not> names i d"
  shows "\<not> lockedTo (handleData q s d) q i"
  using assms
  by (cases d) (auto simp: lockedTo_def names_def handleData_def receiveFileChunkRaw_def
      receiveFileStart_def receiveFileEnd_def Let_def update_conv' split: option.splits)

lemma transfers_other:
  assumes "\<not> lockedTo s q i" "\<not> names i d"
  shows "transfers (handleData q s d) i = transfers s i"
  using assms
  by (cases d) (auto simp: lockedTo_def names_def handleData_def receiveFileChunkRaw_def
      receiveFileStart_def receiveFileEnd_def Let_def split: option.splits)

lemma downloads_grow: "\<exists>ds. downloads (handleData q s d) = downloads s @ ds"
  by (cases d) (auto simp: handleData_def receiveFileChunkRaw_def receiveFileStart_def
      receiveFileEnd_def Let_def split: option.splits)

lemma streamOf_Cons:
  "streamOf p ((q, d) # es) = (if q = p then d # streamOf p es else streamOf p es)"
  by (simp add: streamOf_def)

lemma receiveAll_Cons: "receiveAll s ((q, d) # es) = receiveAll (handleData q s d) es"
  by (simp add: receiveAll_def)

lemma downloads_grow_all: "\<exists>ds. downloads (receiveAll s es) = downloads s @ ds"
proof (induction es arbitrary: s)
  case Nil
  then show ?case by (simp add: receiveAll_def)
next
  case (Cons e es)
  obtain q d where e: "e = (q, d)" by (cases e)
  obtain ds1 where 1: "downloads (handleData q s d) = downloads s @ ds1"
    using downloads_grow by blast
  obtain ds2 where 2: "downloads (receiveAll (handleData q s d) es) = downloads (handleData q s d) @ ds2"
    using Cons.IH by blast
  show ?case using 1 2 e by (simp add: receiveAll_Cons)
qed

lemma others_stay_unlocked:
  assumes "\<forall>q'. q' \<noteq> p \<longrightarrow> \<not> lockedTo s q' i" "q \<noteq> p" "\<not> names i d" "q' \<noteq> p"
  shows "\<not> lockedTo (handleData q s d) q' i"
proof (cases "q' = q")
  case True
  then show ?thesis using lockedTo_self[of s q i d] assms by simp
next
  case False
  then have "lockedTo (handleData q s d) q' i = lockedTo s q' i" by (simp add: lockedTo_other)
  then show ?thesis using assms by simp
qed

lemma streaming_other:
  assumes "streaming s p i t" "q \<noteq> p" "\<not> names i d"
  shows "streaming (handleData q s d) p i t"
proof -
  have nl: "\<not> lockedTo s q i" using assms(1,2) by (simp add: streaming_def)
  have un: "\<forall>q'. q' \<noteq> p \<longrightarrow> \<not> lockedTo s q' i" using assms(1) by (simp add: streaming_def)
  have "lockedTo (handleData q s d) p i"
    using assms(1) lockedTo_other[OF assms(2)] by (simp add: streaming_def)
  moreover have "transfers (handleData q s d) i = Some t"
    using transfers_other[OF nl assms(3)] assms(1) by (simp add: streaming_def)
  moreover have "\<forall>q'. q' \<noteq> p \<longrightarrow> \<not> lockedTo (handleData q s d) q' i"
    using others_stay_unlocked[OF un assms(2,3)] by blast
  ultimately show ?thesis using assms(1) by (simp add: streaming_def)
qed

lemma ready_other:
  assumes "ready s p i" "q \<noteq> p" "\<not> names i d"
  shows "ready (handleData q s d) p i"
proof -
  have un: "\<forall>q'. q' \<noteq> p \<longrightarrow> \<not> lockedTo s q' i" using assms(1) by (simp add: ready_def)
  have "\<forall>q'. q' \<noteq> p \<longrightarrow> \<not> lockedTo (handleData q s d) q' i"
    using others_stay_unlocked[OF un assms(2,3)] by blast
  then show ?thesis using assms(1) by (simp add: ready_def isConnected_handleData)
qed

lemma streaming_chunk:
  assumes "streaming s p i t"
  shows "streaming (handleData p s (Binary c)) p i
           (t\<lparr>chunks := chunks t @ [c], received := received t + length c\<rparr>)"
    and "downloads (handleData p s (Binary c)) = downloads s"
  using assms
  by (auto simp: streaming_def lockedTo_def handleData_def receiveFileChunkRaw_def Let_def
      split: option.splits)

lemma streaming_end:
  assumes "streaming s p i t"
  shows "downloads (handleData p s (FileEnd i)) = downloads s @ [(tname t, concat (chunks t))]"
  using assms
  by (auto simp: streaming_def lockedTo_def handleData_def receiveFileEnd_def Let_def
      split: option.splits)

lemma ready_start:
  assumes "ready s p i" "i \<noteq> 0"
  shows "streaming (handleData p s (FileStart i nm sz)) p i
           \<lparr>tname = nm, tsize = sz, chunks = [], received = 0\<rparr>"
    and "downloads (handleData p s (FileStart i nm sz)) = downloads s"
  using assms
  by (auto simp: ready_def isConnected_def streaming_def lockedTo_def handleData_def
      receiveFileStart_def update_conv' split: option.splits)

text \<open>
  From the middle of a transfer on: whatever other peers send in between, as long as it
  does not carry the same id, the footer produces the chunks received so far followed by
  the chunks still to come.
\<close>

lemma streaming_rest:
  assumes "streaming s p i t"
    and "streamOf p es = map Binary cs @ [FileEnd i]"
    and "\<forall>(q, d) \<in> set es. q \<noteq> p \<longrightarrow> \<not> names i d"
  shows "\<exists>ds1 ds2. downloads (receiveAll s es)
           = downloads s @ ds1 @ [(tname t, concat (chunks t @ cs))] @ ds2"
  using assms
proof (induction es arbitrary: s t cs)
  case Nil
  then show ?case by (simp add: streamOf_def)
next
  case (Cons e es)
  obtain q d where e: "e = (q, d)" by (cases e)
  have rest: "\<forall>(q, d) \<in> set es. q \<noteq> p \<longrightarrow> \<not> names i d" using Cons.prems(3) by simp
  show ?case
  proof (cases "q = p")
    case False
    then have nn: "\<not> names i d" using Cons.prems(3) e by simp
    have st: "streaming (handleData q s d) p i t"
      using streaming_other[OF Cons.prems(1) False nn] .
    have so: "streamOf p es = map Binary cs @ [FileEnd i]"
      using Cons.prems(2) e False by (simp add: streamOf_Cons)
    obtain ds0 where d0: "downloads (handleData q s d) = downloads s @ ds0"
      using downloads_grow by blast
    obtain ds1 ds2 where "downloads (receiveAll (handleData q s d) es) =
        downloads (handleData q s d) @ ds1 @ [(tname t, concat (chunks t @ cs))] @ ds2"
      using Cons.IH[OF st so rest] by blast
    then have "downloads (receiveAll s (e # es))
        = downloads s @ (ds0 @ ds1) @ [(tname t, concat (chunks t @ cs))] @ ds2"
      using d0 e by (simp add: receiveAll_Cons)
    then show ?thesis by blast
  next
    case True
    then have hd: "d # streamOf p es = map Binary cs @ [FileEnd i]"
      using Cons.prems(2) e by (simp add: streamOf_Cons)
    show ?thesis
    proof (cases cs)
      case Nil
      then have d: "d = FileEnd i" using hd by simp
      have "downloads (handleData p s d) = downloads s @ [(tname t, concat (chunks t))]"
        using streaming_end[OF Cons.prems(1)] d by simp
      moreover obtain ds2 where
        "downloads (receiveAll (handleData p s d) es) = downloads (handleData p s d) @ ds2"
        using downloads_grow_all by blast
      ultimately have "downloads (receiveAll s (e # es))
          = downloads s @ [] @ [(tname t, concat (chunks t @ cs))] @ ds2"
        using e True Nil by (simp add: receiveAll_Cons)
      then show ?thesis by blast
    next
      case (Cons c cs')
      then have d: "d = Binary c" and so: "streamOf p es = map Binary cs' @ [FileEnd i]"
        using hd by simp_all
      let ?t = "t\<lparr>chunks := chunks t @ [c], received := received t + length c\<rparr>"
      have st: "streaming (handleData p s d) p i ?t"
        and dl: "downloads (handleData p s d) = downloads s"
        using streaming_chunk[OF Cons.prems(1)] d by simp_all
      obtain ds1 ds2 where "downloads (receiveAll (handleData p s d) es) =
        downloads (handleData p s d) @ ds1 @ [(tname ?t, concat (chunks ?t @ cs'))] @ ds2"
        using Cons.IH[OF st so rest] by blast
      then have "downloads (receiveAll s (e # es))
          = downloads s @ ds1 @ [(tname t, concat (chunks t @ cs))] @ ds2"
        using dl e True Cons by (simp add: receiveAll_Cons)
      then show ?thesis by blast
    qed
  qed
qed

lemma ready_rest:
  assumes "ready s p i" "i \<noteq> 0"
    and "streamOf p es = FileStart i nm sz # map Binary cs @ [FileEnd i]"
    and "\<forall>(q, d) \<in> set es. q \<noteq> p \<longrightarrow> \<not> names i d"
  shows "\<exists>ds1 ds2. downloads (receiveAll s es) = downloads s @ ds1 @ [(nm, concat cs)] @ ds2"
  using assms
proof (induction es arbitrary: s)
  case Nil
  then show ?case by (simp add: streamOf_def)
next
  case (Cons e es)
  obtain q d where e: "e = (q, d)" by (cases e)
  have rest: "\<forall>(q, d) \<in> set es. q \<noteq> p \<longrightarrow> \<not> names i d" using Cons.prems(4) by simp
  show ?case
  proof (cases "q = p")
    case False
    then have nn: "\<not> names i d" using Cons.prems(4) e by simp
    have st: "ready (handleData q s d) p i" using ready_other[OF Cons.prems(1) False nn] .
    have so: "streamOf p es = FileStart i nm sz # map Binary cs @ [FileEnd i]"
      using Cons.prems(3) e False by (simp add: streamOf_Cons)
    obtain ds0 where d0: "downloads (handleData q s d) = downloads s @ ds0"
      using downloads_grow by blast
    obtain ds1 ds2 where "downloads (receiveAll (handleData q s d) es) =
        downloads (handleData q s d) @ ds1 @ [(nm, concat cs)] @ ds2"
      using Cons.IH[OF st Cons.prems(2) so rest] by blast
    then have "downloads (receiveAll s (e # es))
        = downloads s @ (ds0 @ ds1) @ [(nm, concat cs)] @ ds2"
      using d0 e by (simp add: receiveAll_Cons)
    then show ?thesis by blast
  next
    case True
    then have d: "d = FileStart i nm sz" and so: "streamOf p es = map Binary cs @ [FileEnd i]"
      using Cons.prems(3) e by (simp_all add: streamOf_Cons)
    let ?t = "\<lparr>tname = nm, tsize = sz, chunks = [], received = 0\<rparr>"
    have st: "streaming (handleData p s d) p i ?t"
      and dl: "downloads (handleData p s d) = downloads s"
      using ready_start[OF Cons.prems(1,2)] d by simp_all
    obtain ds1 ds2 where "downloads (receiveAll (handleData p s d) es) =
        downloads (handleData p s d) @ ds1 @ [(tname ?t, concat (chunks ?t @ cs))] @ ds2"
      using streaming_rest[OF st so rest] by blast
    then have "downloads (receiveAll s (e # es)) = downloads s @ ds1 @ [(nm, concat cs)] @ ds2"
      using dl e True by (simp add: receiveAll_Cons)
    then show ?thesis by blast
  qed
qed

text \<open>The framed path: chunks are stored under their index and read back index by index.\<close>

lemma chunkCount_upper:
  assumes "fsize f \<le> n * CHUNK_SIZE"
  shows "chunkCount f \<le> n"
proof -
  have "fsize f + CHUNK_SIZE - 1 < Suc n * CHUNK_SIZE"
    using assms by (simp add: CHUNK_SIZE_def)
  then have "(fsize f + CHUNK_SIZE - 1) div CHUNK_SIZE < Suc n"
    by (rule less_mult_imp_div_less)
  then show ?thesis by (simp add: chunkCount_def)
qed

lemma chunkCount_lower:
  assumes "n * CHUNK_SIZE < fsize f"
  shows "n < chunkCount f"
proof -
  have "Suc n * CHUNK_SIZE \<le> fsize f + CHUNK_SIZE - 1"
    using assms by (simp add: CHUNK_SIZE_def)
  then have "Suc n * CHUNK_SIZE div CHUNK_SIZE \<le> (fsize f + CHUNK_SIZE - 1) div CHUNK_SIZE"
    by (rule div_le_mono)
  then show ?thesis by (simp add: chunkCount_def CHUNK_SIZE_def)
qed

lemma blocks_concat: "concat (map (block f) [0..<n]) = take (n * CHUNK_SIZE) (fbytes f)"
proof (induction n)
  case 0
  then show ?case by simp
next
  case (Suc n)
  have "take (n * CHUNK_SIZE + CHUNK_SIZE) (fbytes f)
        = take (n * CHUNK_SIZE) (fbytes f) @ take CHUNK_SIZE (drop (n * CHUNK_SIZE) (fbytes f))"
    by (rule take_add)
  then show ?case using Suc by (simp add: block_def fileSlice_def add.commute)
qed

lemma map_filter_present:
  assumes "\<forall>j < n. g j = Some (h j)"
  shows "List.map_filter g [0..<n] = map h [0..<n]"
  using assms by (induction n) (simp_all add: List.map_filter_def)

lemma collected_chunk:
  assumes "collected m t f idx" "idx * CHUNK_SIZE < fsize f"
  shows "collected (handleMessage peer m (FileChunk t idx (block f idx))) t f (idx + 1)"
    and "filesReceived (handleMessage peer m (FileChunk t idx (block f idx))) = filesReceived m"
  using assms chunkCount_lower[OF assms(2)]
  by (auto simp: collected_def handleMessage_def handleFileChunk_def less_Suc_eq update_conv'
      split: option.splits)

lemma collected_complete:
  assumes "collected m t f idx" "fsize f \<le> idx * CHUNK_SIZE"
  shows "filesReceived (handleMessage peer m (FileComplete t)) = filesReceived m @ [(fname f, fbytes f)]"
proof -
  obtain r where r: "map_of (receivingFiles m) t = Some r" "rname r = fname f" "rchunks r = chunkCount f"
    "idx \<le> chunkCount f" "\<forall>j < idx. receivedChunks r j = Some (block f j)"
    using assms(1) by (auto simp: collected_def split: option.splits)
  have n: "chunkCount f = idx" using r(4) chunkCount_upper[OF assms(2)] by simp
  have "reassemble r = concat (map (block f) [0..<idx])"
    using map_filter_present[of idx "receivedChunks r" "block f"] r(3,5) n by (simp add: reassemble_def)
  also have "\<dots> = fbytes f" using assms(2) by (simp add: blocks_concat fsize_def)
  finally show ?thesis using r by (simp add: handleMessage_def handleFileComplete_def)
qed

lemma other_transfer_frame:
  assumes "transferOf d \<noteq> t"
  shows "map_of (receivingFiles (handleMessage p m d)) t = map_of (receivingFiles m) t"
  using assms
  by (cases d) (auto simp: transferOf_def handleMessage_def handleFileInfo_def handleFileChunk_def
      handleFileComplete_def update_conv' delete_conv' split: option.splits)

lemma filesReceived_grow: "\<exists>ds. filesReceived (handleMessage p m d) = filesReceived m @ ds"
  by (cases d) (auto simp: handleMessage_def handleFileInfo_def handleFileChunk_def
      handleFileComplete_def split: option.splits)

lemma receiveAll_ftm_Cons: "receiveAll_ftm m ((p, d) # es) = receiveAll_ftm (handleMessage p m d) es"
  by (simp add: receiveAll_ftm_def)

lemma filesReceived_grow_all: "\<exists>ds. filesReceived (receiveAll_ftm m es) = filesReceived m @ ds"
proof (induction es arbitrary: m)
  case Nil
  then show ?case by (simp add: receiveAll_ftm_def)
next
  case (Cons e es)
  obtain p d where e: "e = (p, d)" by (cases e)
  obtain ds1 where 1: "filesReceived (handleMessage p m d) = filesReceived m @ ds1"
    using filesReceived_grow by blast
  obtain ds2 where 2: "filesReceived (receiveAll_ftm (handleMessage p m d) es)
      = filesReceived (handleMessage p m d) @ ds2"
    using Cons.IH by blast
  show ?case using 1 2 e by (simp add: receiveAll_ftm_Cons)
qed

lemma collected_other:
  assumes "collected m t f idx" "transferOf d \<noteq> t"
  shows "collected (handleMessage p m d) t f idx"
  using assms other_transfer_frame[OF assms(2), of p m] by (simp add: collected_def)

lemma streamOfId_Cons:
  "streamOfId t ((p, d) # es) = (if transferOf d = t then d # streamOfId t es else streamOfId t es)"
  by (simp add: streamOfId_def)

lemma collected_interleaved:
  assumes "collected m t f idx" "streamOfId t es = sendChunks t f (idx * CHUNK_SIZE) idx"
  shows "\<exists>ds1 ds2. filesReceived (receiveAll_ftm m es)
           = filesReceived m @ ds1 @ [(fname f, fbytes f)] @ ds2"
  using assms
proof (induction es arbitrary: m idx)
  case Nil
  have "sendChunks t f (idx * CHUNK_SIZE) idx \<noteq> []" by (subst sendChunks.simps) simp
  then show ?case using Nil.prems(2) by (simp add: streamOfId_def)
next
  case (Cons e es)
  obtain p d where e: "e = (p, d)" by (cases e)
  show ?case
  proof (cases "transferOf d = t")
    case False
    have c: "collected (handleMessage p m d) t f idx" using collected_other[OF Cons.prems(1) False] .
    have so: "streamOfId t es = sendChunks t f (idx * CHUNK_SIZE) idx"
      using Cons.prems(2) e False by (simp add: streamOfId_Cons)
    obtain ds0 where d0: "filesReceived (handleMessage p m d) = filesReceived m @ ds0"
      using filesReceived_grow by blast
    obtain ds1 ds2 where "filesReceived (receiveAll_ftm (handleMessage p m d) es)
        = filesReceived (handleMessage p m d) @ ds1 @ [(fname f, fbytes f)] @ ds2"
      using Cons.IH[OF c so] by blast
    then have "filesReceived (receiveAll_ftm m (e # es))
        = filesReceived m @ (ds0 @ ds1) @ [(fname f, fbytes f)] @ ds2"
      using d0 e by (simp add: receiveAll_ftm_Cons)
    then show ?thesis by blast
  next
    case True
    then have hd: "d # streamOfId t es = sendChunks t f (idx * CHUNK_SIZE) idx"
      using Cons.prems(2) e by (simp add: streamOfId_Cons)
    show ?thesis
    proof (cases "fsize f \<le> idx * CHUNK_SIZE")
      case True
      then have "sendChunks t f (idx * CHUNK_SIZE) idx = [FileComplete t]"
        by (subst sendChunks.simps) simp
      then have d: "d = FileComplete t" using hd by simp
      have "filesReceived (handleMessage p m d) = filesReceived m @ [(fname f, fbytes f)]"
        using collected_complete[OF Cons.prems(1) True] d by simp
      moreover obtain ds2 where "filesReceived (receiveAll_ftm (handleMessage p m d) es)
          = filesReceived (handleMessage p m d) @ ds2"
        using filesReceived_grow_all by blast
      ultimately have "filesReceived (receiveAll_ftm m (e # es))
          = filesReceived m @ [] @ [(fname f, fbytes f)] @ ds2"
        using e by (simp add: receiveAll_ftm_Cons)
      then show ?thesis by blast
    next
      case False
      then have lt: "idx * CHUNK_SIZE < fsize f" by simp
      have "sendChunks t f (idx * CHUNK_SIZE) idx
          = FileChunk t idx (block f idx) # sendChunks t f ((idx + 1) * CHUNK_SIZE) (idx + 1)"
        using False by (subst sendChunks.simps) (simp add: block_def add.commute)
      then have d: "d = FileChunk t idx (block f idx)"
        and so: "streamOfId t es = sendChunks t f ((idx + 1) * CHUNK_SIZE) (idx + 1)"
        using hd by simp_all
      have c: "collected (handleMessage p m d) t f (idx + 1)"
        and fr: "filesReceived (handleMessage p m d) = filesReceived m"
        using collected_chunk[OF Cons.prems(1) lt] d by simp_all
      obtain ds1 ds2 where "filesReceived (receiveAll_ftm (handleMessage p m d) es)
          = filesReceived (handleMessage p m d) @ ds1 @ [(fname f, fbytes f)] @ ds2"
        using Cons.IH[OF c so] by blast
      then have "filesReceived (receiveAll_ftm m (e # es))
          = filesReceived m @ ds1 @ [(fname f, fbytes f)] @ ds2"
        using fr e by (simp add: receiveAll_ftm_Cons)
      then show ?thesis by blast
    qed
  qed
qed

text \<open>
  Claim C1 (reassembly) against the code. \<open>receiveFileStart\<close> locks the sending peer to
  the id it announces, but \<open>transfers\<close> is keyed by that id alone, and every sender numbers
  its files from 1. Two peers each send their first file to the same receiver: each stream
  is what \<open>sendFile\<close> hands to its connection, and each arrives in order. One download
  results. It has the name of the second file and the bytes of both, four bytes where
  either announcement said two, and the first file is never downloaded.
\<close>

theorem two_senders_one_download:
  "sentLists (run (senderApp ''ann'') (firstFile fileA)) = [streamOf ''VELO-A'' overlapping]
   \<and> sentLists (run (senderApp ''bob'') (firstFile fileB)) = [streamOf ''VELO-B'' overlapping]
   \<and> streamOf ''VELO-A'' overlapping = Handshake ''ann'' # sendFileMessages 0 fileA
   \<and> streamOf ''VELO-B'' overlapping = Handshake ''bob'' # sendFileMessages 0 fileB
   \<and> downloads (receiveAll twoGuests overlapping) = [(''b.bin'', [1, 2, 3, 4])]"
  by (simp add: velo_eval send_eval overlapping_def senderApp_def firstFile_def sentLists_def
      receiveAll_def streamOf_def sendChunksFrom.simps)

text \<open>
  The same arrivals are reassembled as they should when the ids differ, and in general
  when no other peer uses the id meanwhile: if the peer is connected and no other peer is
  locked to the id when the transfer starts, and no control message of another peer
  carries it in between, then the footer starts the download of exactly the bytes of the
  file under its name, whatever else arrives in between.
\<close>

lemma different_ids_two_downloads:
  "downloads (receiveAll twoGuests disjointIds) = [(''a.bin'', [1, 2]), (''b.bin'', [3, 4])]"
  by (simp add: velo_eval receiveAll_def disjointIds_def)

lemma reassembly_without_collision:
  assumes "ready r p (tid + 1)"
    and "streamOf p es = sendFileMessages tid f"
    and "othersAvoid p (tid + 1) es"
  shows "\<exists>ds1 ds2. downloads (receiveAll r es) = downloads r @ ds1 @ [(fname f, fbytes f)] @ ds2"
proof -
  obtain cs where cs: "sendChunksFrom (tid + 1) f 0 = map Binary cs @ [FileEnd (tid + 1)]"
    "concat cs = drop 0 (fbytes f)" using sendChunksFrom_shape by blast
  have so: "streamOf p es
      = FileStart (tid + 1) (fname f) (fsize f) # map Binary cs @ [FileEnd (tid + 1)]"
    using assms(2) cs(1) by (simp add: sendFileMessages_def Let_def)
  have oa: "\<forall>(q, d) \<in> set es. q \<noteq> p \<longrightarrow> \<not> names (tid + 1) d"
    using assms(3) by (auto simp: othersAvoid_def list_all_iff)
  have "\<exists>ds1 ds2. downloads (receiveAll r es) = downloads r @ ds1 @ [(fname f, concat cs)] @ ds2"
    by (rule ready_rest[OF assms(1) _ so oa]) simp
  then show ?thesis using cs(2) by simp
qed

text \<open>
  The framed path, where \<open>generateTransferId\<close> makes the ids up from the clock and a random
  number, keeps the two files of the same arrivals apart. In general: when the messages
  that carry an id are those of one \<open>sendFile\<close> call, in sending order, the bytes of the file
  are handed to \<open>onFileReceived\<close>, whatever arrives in between.
\<close>

lemma framed_two_senders:
  "filesReceived (receiveAll_ftm oneChannel framedOverlap) = [(''a.bin'', [1, 2]), (''b.bin'', [3, 4])]"
  by (simp add: framedOverlap_def receiveAll_ftm_def oneChannel_def handleMessage_def
      handleFileInfo_def handleFileChunk_def handleFileComplete_def reassemble_def
      List.map_filter_def upt_rec)

lemma reassembly_by_id:
  assumes "streamOfId t es = sendFileMessages_ftm t f"
  shows "\<exists>ds1 ds2. filesReceived (receiveAll_ftm m es)
           = filesReceived m @ ds1 @ [(fname f, fbytes f)] @ ds2"
  using assms
proof (induction es arbitrary: m)
  case Nil
  then show ?case by (simp add: streamOfId_def sendFileMessages_ftm_def)
next
  case (Cons e es)
  obtain p d where e: "e = (p, d)" by (cases e)
  show ?case
  proof (cases "transferOf d = t")
    case False
    have so: "streamOfId t es = sendFileMessages_ftm t f"
      using Cons.prems e False by (simp add: streamOfId_Cons)
    obtain ds0 where d0: "filesReceived (handleMessage p m d) = filesReceived m @ ds0"
      using filesReceived_grow by blast
    obtain ds1 ds2 where "filesReceived (receiveAll_ftm (handleMessage p m d) es)
        = filesReceived (handleMessage p m d) @ ds1 @ [(fname f, fbytes f)] @ ds2"
      using Cons.IH[OF so] by blast
    then have "filesReceived (receiveAll_ftm m (e # es))
        = filesReceived m @ (ds0 @ ds1) @ [(fname f, fbytes f)] @ ds2"
      using d0 e by (simp add: receiveAll_ftm_Cons)
    then show ?thesis by blast
  next
    case True
    then have d: "d = FileInfo t (fname f) (fsize f) (chunkCount f)"
      and so: "streamOfId t es = sendChunks t f (0 * CHUNK_SIZE) 0"
      using Cons.prems e by (simp_all add: streamOfId_Cons sendFileMessages_ftm_def)
    have c: "collected (handleMessage p m d) t f 0"
      using d by (simp add: collected_def handleMessage_def handleFileInfo_def update_conv')
    have fr: "filesReceived (handleMessage p m d) = filesReceived m"
      using d by (simp add: handleMessage_def handleFileInfo_def)
    obtain ds1 ds2 where "filesReceived (receiveAll_ftm (handleMessage p m d) es)
        = filesReceived (handleMessage p m d) @ ds1 @ [(fname f, fbytes f)] @ ds2"
      using collected_interleaved[OF c so] by blast
    then have "filesReceived (receiveAll_ftm m (e # es))
        = filesReceived m @ ds1 @ [(fname f, fbytes f)] @ ds2"
      using fr e by (simp add: receiveAll_ftm_Cons)
    then show ?thesis by blast
  qed
qed

text \<open>The counter on the receiving side.\<close>

lemma chunk_monotone: "receivedOf s i \<le> receivedOf (receiveFileChunkRaw peer chunk s) i"
  by (auto simp: receivedOf_def receiveFileChunkRaw_def Let_def split: option.splits)

lemma chunk_counts:
  assumes "lockedTo s peer i" "i \<noteq> 0" "transfers s i = Some t"
  shows "lockedTo (receiveFileChunkRaw peer c s) peer i"
    and "transfers (receiveFileChunkRaw peer c s) i
           = Some (t\<lparr>chunks := chunks t @ [c], received := received t + length c\<rparr>)"
  using assms by (auto simp: lockedTo_def receiveFileChunkRaw_def Let_def split: option.splits)

lemma end_clears:
  assumes "lockedTo s peer i"
  shows "transfers (receiveFileEnd peer i s) i = None"
  using assms by (auto simp: lockedTo_def receiveFileEnd_def Let_def split: option.splits)

lemma deliver_Cons: "deliver p s (d # ds) = deliver p (handleData p s d) ds"
  by (simp add: deliver_def)

lemma honest_chunks:
  assumes "lockedTo s p i" "i \<noteq> 0" "transfers s i = Some t"
    and "received t + (fsize f - offset) \<le> tsize t"
  shows "receivedOf (deliver p s (take n (sendChunksFrom i f offset))) i
          \<le> declaredOf (deliver p s (take n (sendChunksFrom i f offset))) i"
  using assms
proof (induction i f offset arbitrary: s t n rule: sendChunksFrom.induct)
  case (1 i f offset)
  let ?c = "fileSlice f offset (offset + chunkSize)"
  let ?s = "handleData p s (Binary ?c)"
  let ?t = "t\<lparr>chunks := chunks t @ [?c], received := received t + length ?c\<rparr>"
  have len: "length ?c \<le> fsize f - offset" by (simp add: fileSlice_length)
  have st: "lockedTo ?s p i" "transfers ?s i = Some ?t"
    using chunk_counts[OF 1(2,3,4)] by (simp_all add: handleData_def)
  show ?case
  proof (cases n)
    case 0
    then show ?thesis using 1(4,5) by (simp add: deliver_def receivedOf_def declaredOf_def)
  next
    case (Suc m)
    show ?thesis
    proof (cases "offset + length ?c < fsize f")
      case True
      have b: "received ?t + (fsize f - (offset + length ?c)) \<le> tsize ?t"
        using 1(5) len by simp
      have "receivedOf (deliver p ?s (take m (sendChunksFrom i f (offset + length ?c)))) i
            \<le> declaredOf (deliver p ?s (take m (sendChunksFrom i f (offset + length ?c)))) i"
        using 1(1)[OF refl refl True st(1) 1(3) st(2) b] .
      then show ?thesis using True Suc
        by (subst (1 2) sendChunksFrom.simps) (simp add: Let_def deliver_Cons)
    next
      case False
      have eq: "sendChunksFrom i f offset = [Binary ?c, FileEnd i]"
        using False by (subst sendChunksFrom.simps) (simp add: Let_def)
      show ?thesis
      proof (cases m)
        case 0
        then have "deliver p s (take n (sendChunksFrom i f offset)) = ?s"
          using Suc eq by (simp add: deliver_def)
        moreover have "received ?t \<le> tsize ?t" using 1(5) len by simp
        ultimately show ?thesis using st(2) by (simp add: receivedOf_def declaredOf_def)
      next
        case (Suc k)
        then have "deliver p s (take n (sendChunksFrom i f offset)) = receiveFileEnd p i ?s"
          using \<open>n = Suc m\<close> eq by (simp add: deliver_def handleData_def)
        then show ?thesis using end_clears[OF st(1)] by (simp add: receivedOf_def declaredOf_def)
      qed
    qed
  qed
qed

lemma start_locks:
  assumes "isConnected s p"
  shows "lockedTo (receiveFileStart p i nm sz s) p i"
    and "transfers (receiveFileStart p i nm sz s) i
           = Some \<lparr>tname = nm, tsize = sz, chunks = [], received = 0\<rparr>"
  using assms
  by (auto simp: isConnected_def lockedTo_def receiveFileStart_def update_conv' split: option.splits)

lemma honest_sender:
  assumes "isConnected s p" "0 < n"
  shows "receivedOf (deliver p s (take n (sendFileMessages tid f))) (tid + 1)
          \<le> declaredOf (deliver p s (take n (sendFileMessages tid f))) (tid + 1)"
proof -
  obtain m where n: "n = Suc m" using assms(2) by (cases n) auto
  let ?s = "receiveFileStart p (tid + 1) (fname f) (fsize f) s"
  have "receivedOf (deliver p ?s (take m (sendChunksFrom (tid + 1) f 0))) (tid + 1)
        \<le> declaredOf (deliver p ?s (take m (sendChunksFrom (tid + 1) f 0))) (tid + 1)"
    by (rule honest_chunks[OF start_locks(1)[OF assms(1)] _ start_locks(2)[OF assms(1)]]) simp_all
  then show ?thesis using n by (simp add: sendFileMessages_def Let_def deliver_Cons handleData_def)
qed

lemma framed_monotone:
  "bytesReceivedOf m t' \<le> bytesReceivedOf (handleMessage q m (FileChunk t idx c)) t'"
  by (auto simp: bytesReceivedOf_def handleMessage_def handleFileChunk_def update_conv'
      split: option.splits)

lemma framed_counts:
  assumes "map_of (receivingFiles m) t \<noteq> None"
  shows "bytesReceivedOf (handleMessage q m (FileChunk t idx c)) t = bytesReceivedOf m t + length c"
  using assms
  by (auto simp: bytesReceivedOf_def handleMessage_def handleFileChunk_def update_conv'
      split: option.splits)

lemma deliver_ftm_Cons: "deliver_ftm q m (d # ds) = deliver_ftm q (handleMessage q m d) ds"
  by (simp add: deliver_ftm_def)

lemma honest_framed_chunks:
  assumes "map_of (receivingFiles m) t = Some r" "bytesReceived r + (fsize f - offset) \<le> rsize r"
  shows "bytesReceivedOf (deliver_ftm q m (take n (sendChunks t f offset idx))) t
          \<le> announcedSize (deliver_ftm q m (take n (sendChunks t f offset idx))) t"
  using assms
proof (induction t f offset idx arbitrary: m r n rule: sendChunks.induct)
  case (1 t f offset idx)
  show ?case
  proof (cases n)
    case 0
    then show ?thesis using 1(2,3) by (simp add: deliver_ftm_def bytesReceivedOf_def announcedSize_def)
  next
    case (Suc k)
    show ?thesis
    proof (cases "fsize f \<le> offset")
      case True
      then have eq: "sendChunks t f offset idx = [FileComplete t]" by (subst sendChunks.simps) simp
      show ?thesis using 1(2) Suc
        by (simp add: eq deliver_ftm_def handleMessage_def handleFileComplete_def
            bytesReceivedOf_def announcedSize_def delete_conv')
    next
      case False
      let ?c = "fileSlice f offset (offset + CHUNK_SIZE)"
      let ?r = "r\<lparr>receivedChunks := (receivedChunks r)(idx \<mapsto> ?c),
                  bytesReceived := bytesReceived r + length ?c\<rparr>"
      let ?m = "handleMessage q m (FileChunk t idx ?c)"
      have eq: "sendChunks t f offset idx = FileChunk t idx ?c # sendChunks t f (offset + CHUNK_SIZE) (idx + 1)"
        using False by (subst sendChunks.simps) simp
      have lk: "map_of (receivingFiles ?m) t = Some ?r"
        using 1(2) by (simp add: handleMessage_def handleFileChunk_def update_conv')
      have "length ?c = min CHUNK_SIZE (fsize f - offset)" by (rule fileSlice_length)
      then have b: "bytesReceived ?r + (fsize f - (offset + CHUNK_SIZE)) \<le> rsize ?r"
        using 1(3) by (simp add: min_def split: if_splits)
      have "bytesReceivedOf (deliver_ftm q ?m (take k (sendChunks t f (offset + CHUNK_SIZE) (idx + 1)))) t
          \<le> announcedSize (deliver_ftm q ?m (take k (sendChunks t f (offset + CHUNK_SIZE) (idx + 1)))) t"
        using 1(1)[OF False lk b] .
      then show ?thesis using Suc by (simp add: eq deliver_ftm_Cons)
    qed
  qed
qed

lemma honest_framed:
  assumes "0 < n"
  shows "bytesReceivedOf (deliver_ftm q m (take n (sendFileMessages_ftm t f))) t
          \<le> announcedSize (deliver_ftm q m (take n (sendFileMessages_ftm t f))) t"
proof -
  obtain k where n: "n = Suc k" using assms by (cases n) auto
  let ?r = "\<lparr>rname = fname f, rsize = fsize f, rchunks = chunkCount f, receivedChunks = Map.empty,
             bytesReceived = 0, senderId = q, rstatus = ReceivingNow\<rparr>"
  let ?m = "handleMessage q m (FileInfo t (fname f) (fsize f) (chunkCount f))"
  have lk: "map_of (receivingFiles ?m) t = Some ?r"
    by (simp add: handleMessage_def handleFileInfo_def update_conv')
  have "bytesReceivedOf (deliver_ftm q ?m (take k (sendChunks t f 0 0))) t
        \<le> announcedSize (deliver_ftm q ?m (take k (sendChunks t f 0 0))) t"
    by (rule honest_framed_chunks[OF lk]) simp
  then show ?thesis using n by (simp add: sendFileMessages_ftm_def deliver_ftm_Cons)
qed

text \<open>
  Claim C9 (bytes-received counter), as the code has it. On both receive paths a chunk
  never lowers the counter of any inbound transfer, and it raises the counter of the
  transfer it is routed to by exactly its length: in \<open>VeloApp\<close> that is the transfer its
  sender is locked to, in \<open>FileTransferManager\<close> the transfer named in the header of the
  chunk, whichever peer sent it. Neither path compares the counter with the declared size;
  the counter stays within it when the messages handled are those of one \<open>sendFile\<close> call,
  at every point after the announcement.
\<close>

theorem received_counter:
  "receivedOf s i \<le> receivedOf (handleData peer s (Binary c)) i
   \<and> (lockedTo s peer i \<and> i \<noteq> 0 \<and> transfers s i \<noteq> None \<longrightarrow>
        receivedOf (handleData peer s (Binary c)) i = receivedOf s i + length c)
   \<and> (isConnected s peer \<and> 0 < n \<longrightarrow>
        receivedOf (deliver peer s (take n (sendFileMessages tid f))) (tid + 1)
          \<le> declaredOf (deliver peer s (take n (sendFileMessages tid f))) (tid + 1))
   \<and> bytesReceivedOf m u \<le> bytesReceivedOf (handleMessage q m (FileChunk t idx c)) u
   \<and> (map_of (receivingFiles m) t \<noteq> None \<longrightarrow>
        bytesReceivedOf (handleMessage q m (FileChunk t idx c)) t = bytesReceivedOf m t + length c)
   \<and> (0 < n \<longrightarrow>
        bytesReceivedOf (deliver_ftm q m (take n (sendFileMessages_ftm t f))) t
          \<le> announcedSize (deliver_ftm q m (take n (sendFileMessages_ftm t f))) t)"
proof (intro conjI impI)
  show "receivedOf s i \<le> receivedOf (handleData peer s (Binary c)) i"
    using chunk_monotone by (simp add: handleData_def)
next
  assume a: "lockedTo s peer i \<and> i \<noteq> 0 \<and> transfers s i \<noteq> None"
  then obtain tr where t: "transfers s i = Some tr" by blast
  show "receivedOf (handleData peer s (Binary c)) i = receivedOf s i + length c"
    using chunk_counts(2)[OF _ _ t, of peer c] a t by (simp add: handleData_def receivedOf_def)
next
  assume "isConnected s peer \<and> 0 < n"
  then show "receivedOf (deliver peer s (take n (sendFileMessages tid f))) (tid + 1)
          \<le> declaredOf (deliver peer s (take n (sendFileMessages tid f))) (tid + 1)"
    using honest_sender by blast
next
  show "bytesReceivedOf m u \<le> bytesReceivedOf (handleMessage q m (FileChunk t idx c)) u"
    by (rule framed_monotone)
next
  assume "map_of (receivingFiles m) t \<noteq> None"
  then show "bytesReceivedOf (handleMessage q m (FileChunk t idx c)) t = bytesReceivedOf m t + length c"
    by (rule framed_counts)
next
  assume "0 < n"
  then show "bytesReceivedOf (deliver_ftm q m (take n (sendFileMessages_ftm t f))) t
          \<le> announcedSize (deliver_ftm q m (take n (sendFileMessages_ftm t f))) t"
    by (rule honest_framed)
qed

theorem received_counter_witness:
  "lockedTo (handleData ''VELO-A'' oneGuest (FileStart 1 ''a.bin'' 2)) ''VELO-A'' 1 \<and> (1::nat) \<noteq> 0
   \<and> transfers (handleData ''VELO-A'' oneGuest (FileStart 1 ''a.bin'' 2)) 1 \<noteq> None
   \<and> receivedOf (handleData ''VELO-A''
         (handleData ''VELO-A'' oneGuest (FileStart 1 ''a.bin'' 2)) (Binary [1, 2])) 1 = 2
   \<and> isConnected oneGuest ''VELO-A'' \<and> (0::nat) < 2
   \<and> receivedOf (deliver ''VELO-A'' oneGuest (take 2 (sendFileMessages 0 fileA))) 1 = 2
   \<and> declaredOf (deliver ''VELO-A'' oneGuest (take 2 (sendFileMessages 0 fileA))) 1 = 2
   \<and> map_of (receivingFiles announced) ''t1'' \<noteq> None
   \<and> bytesReceivedOf (handleMessage ''other'' announced (FileChunk ''t1'' 0 [1, 2])) ''t1'' = 2
   \<and> bytesReceivedOf (deliver_ftm ''peer'' oneChannel (take 2 (sendFileMessages_ftm ''t1'' fileA))) ''t1'' = 2
   \<and> announcedSize (deliver_ftm ''peer'' oneChannel (take 2 (sendFileMessages_ftm ''t1'' fileA))) ''t1'' = 2"
  using received_counter [of "handleData ''VELO-A'' oneGuest (FileStart 1 ''a.bin'' 2)" 1
      "''VELO-A''" "[1, 2]" 2 0 fileA announced "''t1''" "''other''" "''t1''" 0]
    received_counter [where n = 2 and q = "''peer''" and m = oneChannel and t = "''t1''" and f = fileA]
  by (simp add: velo_eval framed_eval receivedOf_def declaredOf_def lockedTo_def isConnected_def
      deliver_def announced_def bytesReceivedOf_def announcedSize_def deliver_ftm_def
      sendChunksFrom.simps sendChunks.simps update_conv')

text \<open>
  Claim C9 as stated fails on both paths: a peer that announces one byte and sends two
  drives the counter past the declared size.
\<close>

theorem counter_exceeds_declared_size_counterexample:
  "receivedOf (deliver ''VELO-A'' oneGuest [FileStart 1 ''a.bin'' 1, Binary [7, 7]]) 1 = 2
   \<and> declaredOf (deliver ''VELO-A'' oneGuest [FileStart 1 ''a.bin'' 1, Binary [7, 7]]) 1 = 1
   \<and> bytesReceivedOf (deliver_ftm ''peer'' oneChannel
        [FileInfo ''t1'' ''a.bin'' 1 1, FileChunk ''t1'' 0 [7, 7]]) ''t1'' = 2
   \<and> announcedSize (deliver_ftm ''peer'' oneChannel
        [FileInfo ''t1'' ''a.bin'' 1 1, FileChunk ''t1'' 0 [7, 7]]) ''t1'' = 1"
  by (simp add: velo_eval framed_eval receivedOf_def declaredOf_def deliver_def
      bytesReceivedOf_def announcedSize_def deliver_ftm_def)

text \<open>
  Claim C10 (stray chunks), as the code has it. In \<open>VeloApp\<close> a raw chunk from a peer with
  no active inbound transfer, that is, a peer that is unknown, or not locked to any id, or
  locked to an id without an entry in \<open>transfers\<close>, leaves the whole state as it was:
  nothing is stored, counted, downloaded or reported. \<open>FileTransferManager\<close> does not look
  at the sending peer: a framed chunk leaves the state as it was exactly when the id in its
  header has no entry in \<open>receivingFiles\<close>; when it has one, the chunk is stored under its
  index and counted, whoever sent it.
\<close>

theorem stray_chunk_discarded:
  "(\<not> activeInbound s peer \<longrightarrow> handleData peer s (Binary chunk) = s)
   \<and> (map_of (receivingFiles m) t = None \<longrightarrow> handleMessage q m (FileChunk t idx chunk) = m)
   \<and> (map_of (receivingFiles m) t = Some r \<longrightarrow>
        handleMessage q m (FileChunk t idx chunk)
          = m\<lparr>receivingFiles := AList.update t
                 (r\<lparr>receivedChunks := (receivedChunks r)(idx \<mapsto> chunk),
                    bytesReceived := bytesReceived r + length chunk\<rparr>) (receivingFiles m),
               totalTransferred := totalTransferred m + length chunk\<rparr>)"
  by (auto simp: activeInbound_def handleData_def receiveFileChunkRaw_def handleMessage_def
      handleFileChunk_def split: option.splits)

theorem stray_chunk_discarded_witness:
  "\<not> activeInbound oneGuest ''VELO-A''
   \<and> handleData ''VELO-A'' oneGuest (Binary [1, 2, 3]) = oneGuest
   \<and> map_of (receivingFiles oneChannel) ''t1'' = None
   \<and> handleMessage ''peer'' oneChannel (FileChunk ''t1'' 0 [1, 2, 3]) = oneChannel
   \<and> map_of (receivingFiles announced) ''t1''
       = Some \<lparr>rname = ''a.bin'', rsize = 2, rchunks = 1, receivedChunks = Map.empty,
               bytesReceived = 0, senderId = ''peer'', rstatus = ReceivingNow\<rparr>
   \<and> bytesReceivedOf (handleMessage ''peer'' announced (FileChunk ''t1'' 0 [1, 2])) ''t1'' = 2"
  using stray_chunk_discarded [of oneGuest "''VELO-A''" "[1, 2, 3]" oneChannel "''t1''" "''peer''" 0]
    stray_chunk_discarded [where m = announced and t = "''t1''" and q = "''peer''" and idx = 0
      and chunk = "[1, 2]"]
  by (simp add: velo_eval framed_eval activeInbound_def announced_def bytesReceivedOf_def
      update_conv')

text \<open>
  Claim C10 as stated fails on the framed path: a peer that has announced nothing sends a
  chunk that names the transfer of another peer; it is stored and counted, and it is the
  content of the file that \<open>onFileReceived\<close> gets.
\<close>

theorem chunk_of_another_peer_counterexample:
  "\<not> activeInbound_ftm announced ''other''
   \<and> handleMessage ''other'' announced (FileChunk ''t1'' 0 [9, 9]) \<noteq> announced
   \<and> bytesReceivedOf announced ''t1'' = 0
   \<and> bytesReceivedOf (handleMessage ''other'' announced (FileChunk ''t1'' 0 [9, 9])) ''t1'' = 2
   \<and> filesReceived (deliver_ftm ''other'' announced [FileChunk ''t1'' 0 [9, 9], FileComplete ''t1''])
       = [(''a.bin'', [9, 9])]"
proof -
  have "totalTransferred (handleMessage ''other'' announced (FileChunk ''t1'' 0 [9, 9]))
        \<noteq> totalTransferred announced"
    by (simp add: framed_eval announced_def)
  then have "handleMessage ''other'' announced (FileChunk ''t1'' 0 [9, 9]) \<noteq> announced" by auto
  then show ?thesis
    by (simp add: framed_eval announced_def bytesReceivedOf_def deliver_ftm_def
        activeInbound_ftm_def reassemble_def List.map_filter_def upt_rec update_conv')
qed


subsection \<open>Rendezvous service\<close>

lemma upt6: "[0..<6] = [0, 1, 2, 3, 4, 5::nat]"
  by (simp add: upt_rec)

lemma length_chars: "length chars = 32"
  by (simp add: chars_def)

lemma randomIndex_bound:
  assumes "0 \<le> r" "r < 1"
  shows "randomIndex r < length chars"
proof -
  have "r * 32 < 32" using assms by simp
  then have "\<lfloor>r * 32\<rfloor> < 32" by (simp add: floor_less_iff)
  moreover have "nat x < 32" if "x < 32" for x :: int using that by arith
  ultimately have "nat \<lfloor>r * 32\<rfloor> < 32" by blast
  then show ?thesis by (simp only: randomIndex_def length_chars of_nat_numeral)
qed

lemma charAt_in: "i < length str \<Longrightarrow> \<exists>ch. charAt str i = [ch] \<and> ch \<in> set str"
  by (simp add: charAt_def)

lemma chars_plain: "set chars \<inter> confusable = {}"
  by (simp add: chars_def confusable_def)

lemma chars_upper: "ch \<in> set chars \<Longrightarrow> upperChar ch = ch"
proof -
  have "map upperChar chars = map (\<lambda>c. c) chars"
    by (simp add: chars_def upperChar_def)
  then have "\<forall>c \<in> set chars. upperChar c = c" by (simp only: map_eq_conv)
  then show "ch \<in> set chars \<Longrightarrow> upperChar ch = ch" by blast
qed

lemma generateRoomCode_shape:
  assumes "randomOK rnd"
  shows "length (generateRoomCode rnd n) = 6 \<and> set (generateRoomCode rnd n) \<subseteq> set chars"
proof -
  have "\<exists>ch. charAt chars (randomIndex (rnd k)) = [ch] \<and> ch \<in> set chars" for k
    using assms randomIndex_bound charAt_in by (simp add: randomOK_def)
  then obtain g where g: "\<And>k. charAt chars (randomIndex (rnd k)) = [g k] \<and> g k \<in> set chars"
    by metis
  show ?thesis
    using g by (simp add: generateRoomCode_def upt6)
qed

lemma freshRoomCode_result:
  "freshRoomCode rms rnd n = Some y \<Longrightarrow> rms (fst y) = None \<and> (\<exists>k. fst y = generateRoomCode rnd k)"
  by (erule freshRoomCode.raw_induct[rotated]) (auto split: if_splits)

lemma sendEach_outbox: "sendEach us msg s = s\<lparr>outbox := outbox s @ map (\<lambda>u. (u, msg)) us\<rparr>"
  by (induction us arbitrary: s) (simp_all add: sendEach_def wsSend_def)

lemma leaveRoom_tableOK: "tableOK s \<Longrightarrow> tableOK (leaveRoom ws s)"
  by (auto simp: tableOK_def leaveRoom_def Let_def sendEach_outbox split: option.splits if_splits)

lemma leaveRoom_random: "mathRandom (leaveRoom ws s) = mathRandom s"
  by (auto simp: leaveRoom_def Let_def sendEach_outbox split: option.splits)

lemma leaveRoom_rooms: "rooms (leaveRoom ws s) c = Some a \<Longrightarrow> rooms s c = Some a"
  by (auto simp: leaveRoom_def Let_def sendEach_outbox split: option.splits if_splits)

lemma leaveRoom_code: "code (heap (leaveRoom ws s) a) = code (heap s a)"
  by (auto simp: leaveRoom_def Let_def sendEach_outbox split: option.splits)

lemma leaveRoom_nextRoom: "nextRoom (leaveRoom ws s) = nextRoom s"
  by (auto simp: leaveRoom_def Let_def sendEach_outbox split: option.splits)

lemma joinRoom_frame:
  "rooms (joinRoom ws rc uname s) = rooms (if truthy (wsRoomCode s ws) \<and> rooms s (toUpperCase rc) \<noteq> None then leaveRoom ws s else s)
   \<and> nextRoom (joinRoom ws rc uname s) = nextRoom s
   \<and> code (heap (joinRoom ws rc uname s) a) = code (heap s a)"
  by (auto simp: joinRoom_def Let_def sendEach_outbox wsSend_def leaveRoom_nextRoom leaveRoom_code
      split: option.splits)

lemma joinRoom_tableOK:
  assumes "tableOK s" shows "tableOK (joinRoom ws rc uname s)"
proof -
  let ?s1 = "if truthy (wsRoomCode s ws) \<and> rooms s (toUpperCase rc) \<noteq> None then leaveRoom ws s else s"
  have t1: "tableOK ?s1" using assms leaveRoom_tableOK by simp
  have n1: "nextRoom ?s1 = nextRoom s" "\<And>a. code (heap ?s1 a) = code (heap s a)"
    by (simp_all add: leaveRoom_nextRoom leaveRoom_code)
  show ?thesis
    unfolding tableOK_def
  proof (intro allI impI)
    fix c a assume "rooms (joinRoom ws rc uname s) c = Some a"
    then have "rooms ?s1 c = Some a" using joinRoom_frame[of ws rc uname s] by simp
    then have "code (heap ?s1 a) = c \<and> a < nextRoom ?s1" using t1 by (simp add: tableOK_def)
    then show "code (heap (joinRoom ws rc uname s) a) = c \<and> a < nextRoom (joinRoom ws rc uname s)"
      using n1 joinRoom_frame[of ws rc uname s a] by simp
  qed
qed

lemma joinRoom_random: "mathRandom (joinRoom ws rc uname s) = mathRandom s"
  by (auto simp: joinRoom_def Let_def sendEach_outbox wsSend_def leaveRoom_random split: option.splits)

lemma createRoom_Some:
  assumes "createRoom ws uname s = Some s'"
  shows "\<exists>c n. freshRoomCode (rooms s) (mathRandom s) (randomCalls s) = Some (c, n)
           \<and> s' = wsSend ws (RoomCreated c [(ws, uname)])
            (s\<lparr>rooms := (rooms s)(c \<mapsto> nextRoom s),
               heap := (heap s)(nextRoom s := \<lparr>code = c, users = [(ws, uname)]\<rparr>),
               nextRoom := nextRoom s + 1,
               wsRoomCode := (wsRoomCode s)(ws := Some c),
               wsUsername := (wsUsername s)(ws := Some uname),
               randomCalls := n\<rparr>)"
  using assms by (auto simp: createRoom_def split: option.splits)

lemma createRoom_tableOK:
  assumes "tableOK s" "createRoom ws uname s = Some s'"
  shows "tableOK s'"
proof -
  obtain c n where s': "s' = wsSend ws (RoomCreated c [(ws, uname)])
            (s\<lparr>rooms := (rooms s)(c \<mapsto> nextRoom s),
               heap := (heap s)(nextRoom s := \<lparr>code = c, users = [(ws, uname)]\<rparr>),
               nextRoom := nextRoom s + 1,
               wsRoomCode := (wsRoomCode s)(ws := Some c),
               wsUsername := (wsUsername s)(ws := Some uname),
               randomCalls := n\<rparr>)"
    using createRoom_Some[OF assms(2)] by blast
  show ?thesis
    unfolding tableOK_def
  proof (intro allI impI)
    fix k a assume r: "rooms s' k = Some a"
    show "code (heap s' a) = k \<and> a < nextRoom s'"
    proof (cases "k = c")
      case True
      then show ?thesis using r s' by (simp add: wsSend_def)
    next
      case False
      then have "rooms s k = Some a" using r s' by (simp add: wsSend_def)
      then have "code (heap s a) = k \<and> a < nextRoom s" using assms(1) by (simp add: tableOK_def)
      then show ?thesis using s' by (simp add: wsSend_def)
    qed
  qed
qed

lemma createRoom_random: "createRoom ws uname s = Some s' \<Longrightarrow> mathRandom s' = mathRandom s"
  by (auto simp: createRoom_def wsSend_def split: option.splits prod.splits)

lemma handleRequest_inv:
  assumes "tableOK s" "handleRequest q s = Some s'"
  shows "tableOK s' \<and> mathRandom s' = mathRandom s"
  using assms
  by (cases q) (auto simp: handleRequest_def createRoom_tableOK createRoom_random joinRoom_tableOK
      joinRoom_random leaveRoom_tableOK leaveRoom_random)

lemma serve_inv:
  assumes "tableOK s" "serve qs s = Some s'"
  shows "tableOK s' \<and> mathRandom s' = mathRandom s"
  using assms
proof (induction qs arbitrary: s)
  case Nil
  then show ?case by simp
next
  case (Cons q qs)
  then obtain s1 where s1: "handleRequest q s = Some s1" "serve qs s1 = Some s'"
    by (auto split: option.splits)
  have "tableOK s1 \<and> mathRandom s1 = mathRandom s" using handleRequest_inv[OF Cons.prems(1) s1(1)] .
  then show ?case using Cons.IH[OF _ s1(2)] by simp
qed

lemma newServer_tableOK: "tableOK (newServer rnd)"
  by (simp add: tableOK_def newServer_def)

lemma tableOK_distinct: "tableOK s \<Longrightarrow> distinctCodes s"
  by (auto simp: tableOK_def distinctCodes_def)

text \<open>The loop of \<open>createRoom\<close> ends at the first draw that no live room has.\<close>

lemma freshRoomCode_first_free:
  assumes "\<forall>j<k. rms (generateRoomCode rnd (n + 6 * j)) \<noteq> None"
    and "rms (generateRoomCode rnd (n + 6 * k)) = None"
  shows "freshRoomCode rms rnd n = Some (generateRoomCode rnd (n + 6 * k), n + 6 * k + 6)"
  using assms
proof (induction k arbitrary: n)
  case 0
  then show ?case by (subst freshRoomCode.simps) simp
next
  case (Suc k)
  have taken: "rms (generateRoomCode rnd n) \<noteq> None" using Suc.prems(1)[rule_format, of 0] by simp
  have "\<forall>j<k. rms (generateRoomCode rnd (n + 6 + 6 * j)) \<noteq> None"
  proof (intro allI impI)
    fix j assume "j < k"
    then have "Suc j < Suc k" by simp
    then have "rms (generateRoomCode rnd (n + 6 * Suc j)) \<noteq> None"
      using Suc.prems(1) by blast
    then show "rms (generateRoomCode rnd (n + 6 + 6 * j)) \<noteq> None" by (simp add: add.assoc)
  qed
  moreover have "rms (generateRoomCode rnd (n + 6 + 6 * k)) = None"
    using Suc.prems(2) by (simp add: add.assoc)
  ultimately have "freshRoomCode rms rnd (n + 6)
      = Some (generateRoomCode rnd (n + 6 + 6 * k), n + 6 + 6 * k + 6)"
    by (rule Suc.IH)
  then show ?case using taken by (subst freshRoomCode.simps) (simp add: add.assoc)
qed

lemma freshRoomCode_returns:
  assumes "rms (generateRoomCode rnd (n + 6 * k)) = None"
  shows "\<exists>j\<le>k. freshRoomCode rms rnd n = Some (generateRoomCode rnd (n + 6 * j), n + 6 * j + 6)
           \<and> rms (generateRoomCode rnd (n + 6 * j)) = None
           \<and> (\<forall>i<j. rms (generateRoomCode rnd (n + 6 * i)) \<noteq> None)"
proof -
  let ?free = "\<lambda>j. rms (generateRoomCode rnd (n + 6 * j)) = None"
  let ?j = "LEAST j. ?free j"
  have f: "?free ?j" using assms by (rule LeastI)
  have le: "?j \<le> k" using assms by (rule Least_le)
  have t: "\<forall>i<?j. \<not> ?free i" using not_less_Least by blast
  have "freshRoomCode rms rnd n = Some (generateRoomCode rnd (n + 6 * ?j), n + 6 * ?j + 6)"
    using freshRoomCode_first_free[OF t f] .
  then show ?thesis using f le t by blast
qed

lemma freshRoomCode_free:
  "freshRoomCode rms rnd n = Some y \<Longrightarrow> \<exists>k. rms (generateRoomCode rnd (n + 6 * k)) = None"
proof (erule freshRoomCode.raw_induct[rotated])
  fix fresh rms rnd n y
  assume ih: "\<And>rms rnd n y. fresh rms rnd n = Some y \<Longrightarrow> \<exists>k. rms (generateRoomCode rnd (n + 6 * k)) = None"
    and st: "(if rms (generateRoomCode rnd n) \<noteq> None then fresh rms rnd (n + 6)
              else Some (generateRoomCode rnd n, n + 6)) = Some y"
  show "\<exists>k. rms (generateRoomCode rnd (n + 6 * k)) = None"
  proof (cases "rms (generateRoomCode rnd n) = None")
    case True
    then have "rms (generateRoomCode rnd (n + 6 * 0)) = None" by simp
    then show ?thesis by blast
  next
    case False
    then have "fresh rms rnd (n + 6) = Some y" using st by simp
    then obtain k where "rms (generateRoomCode rnd (n + 6 + 6 * k)) = None" using ih by blast
    then have "rms (generateRoomCode rnd (n + 6 * Suc k)) = None" by (simp add: add.assoc)
    then show ?thesis by blast
  qed
qed


text \<open>
  Claim C5 (room codes). In every state the server reaches, no two different live rooms
  have the same code. When one of the draws to come is a code that no live room has,
  \<open>createRoom\<close> returns. The code it returns is the first such draw: it has six characters,
  all from \<open>chars\<close>, none of them 0, O, 1 or I, and it is its own upper-case form; no live
  room had it before, the new room has the requester as its only member, and afterwards
  again no two different live rooms have the same code.
\<close>

theorem createRoom_code:
  assumes "randomOK rnd"
    and "serve qs (newServer rnd) = Some s"
  shows "distinctCodes s
         \<and> (rooms s (generateRoomCode rnd (randomCalls s + 6 * k)) = None \<longrightarrow>
            (\<exists>s'. createRoom ws uname s = Some s'))
         \<and> (createRoom ws uname s = Some s' \<longrightarrow>
            (\<exists>c. outbox s' = outbox s @ [(ws, RoomCreated c [(ws, uname)])]
               \<and> length c = 6 \<and> set c \<subseteq> set chars \<and> set c \<inter> confusable = {} \<and> toUpperCase c = c
               \<and> rooms s c = None \<and> membersOf s' c = Some [(ws, uname)] \<and> distinctCodes s'
               \<and> (\<exists>j. c = generateRoomCode rnd (randomCalls s + 6 * j)
                       \<and> randomCalls s' = randomCalls s + 6 * j + 6
                       \<and> (\<forall>i<j. rooms s (generateRoomCode rnd (randomCalls s + 6 * i)) \<noteq> None))))"
proof (intro conjI impI)
  have inv: "tableOK s" "mathRandom s = rnd"
    using serve_inv[OF newServer_tableOK assms(2)] by (simp_all add: newServer_def)
  show "distinctCodes s" using inv(1) by (rule tableOK_distinct)
  {
    assume "rooms s (generateRoomCode rnd (randomCalls s + 6 * k)) = None"
    then obtain y where "freshRoomCode (rooms s) rnd (randomCalls s) = Some y"
      using freshRoomCode_returns[of "rooms s" rnd "randomCalls s" k] by blast
    then show "\<exists>s'. createRoom ws uname s = Some s'"
      using inv(2) by (cases y) (simp add: createRoom_def)
  }
  {
    assume cr: "createRoom ws uname s = Some s'"
    obtain c n where f: "freshRoomCode (rooms s) (mathRandom s) (randomCalls s) = Some (c, n)"
      using createRoom_Some[OF cr] by blast
    then obtain k0 where "rooms s (generateRoomCode rnd (randomCalls s + 6 * k0)) = None"
      using freshRoomCode_free inv(2) by blast
    then obtain j where j: "freshRoomCode (rooms s) rnd (randomCalls s)
          = Some (generateRoomCode rnd (randomCalls s + 6 * j), randomCalls s + 6 * j + 6)"
        "rooms s (generateRoomCode rnd (randomCalls s + 6 * j)) = None"
        "\<forall>i<j. rooms s (generateRoomCode rnd (randomCalls s + 6 * i)) \<noteq> None"
      using freshRoomCode_returns[of "rooms s" rnd "randomCalls s" k0] by blast
    have c: "c = generateRoomCode rnd (randomCalls s + 6 * j)" and n: "n = randomCalls s + 6 * j + 6"
      using f j(1) inv(2) by simp_all
    have fr: "rooms s c = None" using j(2) c by simp
    have sh: "length c = 6" "set c \<subseteq> set chars"
      using generateRoomCode_shape[OF assms(1)] c by auto
    have pl: "set c \<inter> confusable = {}" using sh(2) chars_plain by blast
    have up: "toUpperCase c = c" using sh(2) chars_upper by (simp add: toUpperCase_def map_idI subset_iff)
    have s': "s' = wsSend ws (RoomCreated c [(ws, uname)])
              (s\<lparr>rooms := (rooms s)(c \<mapsto> nextRoom s),
                 heap := (heap s)(nextRoom s := \<lparr>code = c, users = [(ws, uname)]\<rparr>),
                 nextRoom := nextRoom s + 1,
                 wsRoomCode := (wsRoomCode s)(ws := Some c),
                 wsUsername := (wsUsername s)(ws := Some uname),
                 randomCalls := n\<rparr>)"
      using cr f by (simp add: createRoom_def)
    have ob: "outbox s' = outbox s @ [(ws, RoomCreated c [(ws, uname)])]"
      and mem: "membersOf s' c = Some [(ws, uname)]"
      and rc: "randomCalls s' = randomCalls s + 6 * j + 6"
      using s' n by (simp_all add: wsSend_def membersOf_def)
    have dc: "distinctCodes s'" using tableOK_distinct createRoom_tableOK[OF inv(1) cr] by blast
    have "\<exists>j. c = generateRoomCode rnd (randomCalls s + 6 * j)
                       \<and> randomCalls s' = randomCalls s + 6 * j + 6
                       \<and> (\<forall>i<j. rooms s (generateRoomCode rnd (randomCalls s + 6 * i)) \<noteq> None)"
      using c rc j(3) by blast
    then show "\<exists>c. outbox s' = outbox s @ [(ws, RoomCreated c [(ws, uname)])]
               \<and> length c = 6 \<and> set c \<subseteq> set chars \<and> set c \<inter> confusable = {} \<and> toUpperCase c = c
               \<and> rooms s c = None \<and> membersOf s' c = Some [(ws, uname)] \<and> distinctCodes s'
               \<and> (\<exists>j. c = generateRoomCode rnd (randomCalls s + 6 * j)
                       \<and> randomCalls s' = randomCalls s + 6 * j + 6
                       \<and> (\<forall>i<j. rooms s (generateRoomCode rnd (randomCalls s + 6 * i)) \<noteq> None))"
      using ob sh pl up fr mem dc by blast
  }
qed

lemmas server_eval =
  lobby_def newServer_def coin_def createRoom_def joinRoom_def leaveRoom_def wsSend_def
  sendEach_def truthy_def toUpperCase_def upperChar_def generateRoomCode_def upt6
  randomIndex_def charAt_def chars_def handleRequest_def membersOf_def Let_def

lemma gen0: "generateRoomCode coin 0 = ''AAAAAA''"
  by (simp add: server_eval)

lemma gen6: "generateRoomCode coin 6 = ''SSSSSS''"
  by (simp add: server_eval)

lemma fresh0: "freshRoomCode Map.empty coin 0 = Some (''AAAAAA'', 6)"
  by (subst freshRoomCode.simps) (simp add: gen0)

lemma echo_codes:
  "generateRoomCode echo 0 = ''AAAAAA''" "generateRoomCode echo 6 = ''AAAAAA''"
  "generateRoomCode echo 12 = ''SSSSSS''"
  by (simp_all add: echo_def generateRoomCode_def upt6 randomIndex_def charAt_def chars_def)

lemma echo_first: "freshRoomCode Map.empty echo 0 = Some (''AAAAAA'', 6)"
  using freshRoomCode_first_free[of 0 Map.empty echo 0] by (simp add: echo_codes)

lemma echo_retry: "freshRoomCode [''AAAAAA'' \<mapsto> a] echo 6 = Some (''SSSSSS'', 18)"
  using freshRoomCode_first_free[of 1 "[''AAAAAA'' \<mapsto> a]" echo 6] by (simp add: echo_codes)

theorem createRoom_code_witness:
  "randomOK echo
   \<and> (\<exists>s. serve [CreateRoom ''u1'' ''ann''] (newServer echo) = Some s
        \<and> rooms s (generateRoomCode echo (randomCalls s + 6 * 0)) \<noteq> None
        \<and> rooms s (generateRoomCode echo (randomCalls s + 6 * 1)) = None
        \<and> (\<exists>s'. createRoom ''u2'' ''bob'' s = Some s'
              \<and> outbox s' = [(''u1'', RoomCreated ''AAAAAA'' [(''u1'', ''ann'')]),
                             (''u2'', RoomCreated ''SSSSSS'' [(''u2'', ''bob'')])]
              \<and> randomCalls s' = 18
              \<and> membersOf s' ''AAAAAA'' = Some [(''u1'', ''ann'')]
              \<and> membersOf s' ''SSSSSS'' = Some [(''u2'', ''bob'')]
              \<and> distinctCodes s'))"
proof -
  have r: "randomOK echo" by (simp add: randomOK_def echo_def)
  obtain s where s: "serve [CreateRoom ''u1'' ''ann''] (newServer echo) = Some s"
    and rm: "rooms s = [''AAAAAA'' \<mapsto> 0]" and rc: "randomCalls s = 6"
    and ob: "outbox s = [(''u1'', RoomCreated ''AAAAAA'' [(''u1'', ''ann'')])]"
    and mr: "mathRandom s = echo" and hp: "users (heap s 0) = [(''u1'', ''ann'')]"
    and nr: "nextRoom s = 1"
    by (simp add: handleRequest_def createRoom_def newServer_def echo_first wsSend_def)
  have taken: "rooms s (generateRoomCode echo (randomCalls s + 6 * 0)) \<noteq> None"
    and free: "rooms s (generateRoomCode echo (randomCalls s + 6 * 1)) = None"
    using rm rc by (simp_all add: echo_codes)
  obtain s' where c: "createRoom ''u2'' ''bob'' s = Some s'"
    using createRoom_code[OF r s, of 1 "''u2''" "''bob''"] free by blast
  have f: "freshRoomCode (rooms s) (mathRandom s) (randomCalls s) = Some (''SSSSSS'', 18)"
    using rm rc mr echo_retry by simp
  have s': "s' = wsSend ''u2'' (RoomCreated ''SSSSSS'' [(''u2'', ''bob'')])
              (s\<lparr>rooms := (rooms s)(''SSSSSS'' \<mapsto> nextRoom s),
                 heap := (heap s)(nextRoom s := \<lparr>code = ''SSSSSS'', users = [(''u2'', ''bob'')]\<rparr>),
                 nextRoom := nextRoom s + 1,
                 wsRoomCode := (wsRoomCode s)(''u2'' := Some ''SSSSSS''),
                 wsUsername := (wsUsername s)(''u2'' := Some ''bob''),
                 randomCalls := 18\<rparr>)"
    using c f by (simp add: createRoom_def)
  have facts: "outbox s' = [(''u1'', RoomCreated ''AAAAAA'' [(''u1'', ''ann'')]),
                             (''u2'', RoomCreated ''SSSSSS'' [(''u2'', ''bob'')])]"
      "randomCalls s' = 18"
      "membersOf s' ''AAAAAA'' = Some [(''u1'', ''ann'')]"
      "membersOf s' ''SSSSSS'' = Some [(''u2'', ''bob'')]"
    using s' rm ob hp nr by (simp_all add: wsSend_def membersOf_def)
  have "distinctCodes s'"
    using createRoom_code[OF r s, of 1 "''u2''" "''bob''" s'] c by blast
  then show ?thesis using r s taken free c facts by blast
qed

text \<open>
  Claim C8 (unknown room). When the upper-cased code names no live room, \<open>joinRoom\<close>
  sends one error message, to the requesting socket, and changes nothing else: the table,
  the room objects and the sockets' rooms and names are as before.
\<close>

theorem joinRoom_not_found:
  "rooms s (toUpperCase roomCode) = None \<Longrightarrow>
     joinRoom ws roomCode uname s = s\<lparr>outbox := outbox s @ [(ws, ErrorMessage ''Room not found'')]\<rparr>"
  by (simp add: joinRoom_def wsSend_def)

theorem joinRoom_not_found_witness:
  "rooms lobby (toUpperCase ''abcdef'') = None
   \<and> joinRoom ''u1'' ''abcdef'' ''ann'' lobby = lobby\<lparr>outbox := [(''u1'', ErrorMessage ''Room not found'')]\<rparr>"
  using joinRoom_not_found [of lobby "''abcdef''" "''u1''" "''ann''"]
  by (simp add: lobby_def newServer_def)

lemma fresh6: "freshRoomCode [''AAAAAA'' \<mapsto> a] coin 6 = Some (''SSSSSS'', 12)"
  by (subst freshRoomCode.simps) (simp add: gen6)

text \<open>
  Claim C7 (one room per endpoint) against the code: \<open>createRoom\<close> does not leave the
  room the socket is in. After two \<open>create-room\<close> requests of one socket, both rooms are
  live and the socket is a member of both.
\<close>

theorem createRoom_keeps_old_membership:
  "\<exists>s. serve [CreateRoom ''u1'' ''ann'', CreateRoom ''u1'' ''ann''] lobby = Some s
       \<and> membersOf s ''AAAAAA'' = Some [(''u1'', ''ann'')]
       \<and> membersOf s ''SSSSSS'' = Some [(''u1'', ''ann'')]"
  by (simp add: handleRequest_def createRoom_def lobby_def newServer_def fresh0 fresh6
      wsSend_def membersOf_def)

text \<open>
  Claim C6 (member lists) against the code: a socket that is alone in its room and joins
  that room again is told that it joined, with itself as the member list, while the room
  is gone from the table: \<open>leaveRoom\<close> deleted it, and \<open>joinRoom\<close> added the socket to the
  object it had looked up before.
\<close>

theorem rejoin_leaves_no_room:
  "\<exists>s. serve [CreateRoom ''u1'' ''ann'', JoinRoom ''u1'' ''aaaaaa'' ''ann''] lobby = Some s
       \<and> outbox s = [(''u1'', RoomCreated ''AAAAAA'' [(''u1'', ''ann'')]),
                     (''u1'', RoomJoined ''AAAAAA'' [(''u1'', ''ann'')])]
       \<and> wsRoomCode s ''u1'' = Some ''AAAAAA''
       \<and> membersOf s ''AAAAAA'' = None"
  by (simp add: handleRequest_def createRoom_def lobby_def newServer_def fresh0 joinRoom_def
      leaveRoom_def truthy_def toUpperCase_def upperChar_def sendEach_def wsSend_def
      membersOf_def Let_def)

text \<open>
  In the other cases the lists are those of the table: when the room a socket joins is
  still in the table afterwards, the joiner and every other member get its member list as
  it is then; and the members that remain after a socket left get the list without it.
\<close>

lemma joinRoom_lists_members:
  assumes "rooms s (toUpperCase rc) = Some a"
    and "rooms (joinRoom ws rc uname s) (toUpperCase rc) = Some a"
  shows "\<exists>before members.
           membersOf (joinRoom ws rc uname s) (toUpperCase rc) = Some members
           \<and> outbox (joinRoom ws rc uname s)
               = before @ (ws, RoomJoined (toUpperCase rc) members)
                   # map (\<lambda>u. (u, UserJoined (ws, uname) members))
                       (filter (\<lambda>u. u \<noteq> ws) (map fst members))"
  using assms
  by (auto simp: joinRoom_def membersOf_def Let_def sendEach_outbox wsSend_def)

lemma leaveRoom_lists_members:
  assumes "wsRoomCode s ws = Some rc" "rc \<noteq> []" "rooms s rc = Some a"
  shows "outbox (leaveRoom ws s)
           = outbox s @ map (\<lambda>u. (u, UserLeft ws (AList.delete ws (users (heap s a)))))
                          (map fst (AList.delete ws (users (heap s a))))
         \<and> (AList.delete ws (users (heap s a)) \<noteq> [] \<longrightarrow>
              membersOf (leaveRoom ws s) rc = Some (AList.delete ws (users (heap s a))))
         \<and> (AList.delete ws (users (heap s a)) = [] \<longrightarrow> membersOf (leaveRoom ws s) rc = None)"
  using assms
  by (auto simp: leaveRoom_def membersOf_def Let_def sendEach_outbox)

text \<open>\<open>joinRoom\<close>, for comparison, leaves the previous room before it enters the next.\<close>

lemma joinRoom_leaves_previous_room:
  "\<exists>s. serve [CreateRoom ''u1'' ''ann'', CreateRoom ''u2'' ''bob'', JoinRoom ''u1'' ''ssssss'' ''ann''] lobby = Some s
       \<and> membersOf s ''AAAAAA'' = None
       \<and> membersOf s ''SSSSSS'' = Some [(''u2'', ''bob''), (''u1'', ''ann'')]"
  by (simp add: handleRequest_def createRoom_def lobby_def newServer_def fresh0 fresh6
      joinRoom_def leaveRoom_def truthy_def toUpperCase_def upperChar_def sendEach_def
      wsSend_def membersOf_def Let_def)

subsection \<open>Velo transfer engine: sending\<close>

lemma sendFile_serialized:
  assumes "sendLoops s = []"
  shows "serialized (sendFile f s)"
  using assms by (simp add: serialized_def sendFile_def Let_def)

lemma processTransferQueue_serialized:
  assumes "serialized s"
  shows "serialized (processTransferQueue s)"
proof (cases "isSending s")
  case True
  then show ?thesis using assms by (simp add: processTransferQueue_def)
next
  case False
  then have e: "sendLoops s = []" using assms by (auto simp: serialized_def)
  show ?thesis
  proof (cases "sendingQueue s")
    case Nil
    then show ?thesis using assms False by (simp add: processTransferQueue_def)
  next
    case (Cons f rest)
    have "serialized (sendFile f (s\<lparr>sendingQueue := rest\<rparr>))"
      by (rule sendFile_serialized) (simp add: e)
    then show ?thesis using False Cons by (simp add: processTransferQueue_def)
  qed
qed

lemma queueFileForSending_serialized:
  "serialized s \<Longrightarrow> serialized (queueFileForSending f s)"
  unfolding queueFileForSending_def
  by (rule processTransferQueue_serialized) (simp add: serialized_def)

lemma handleFiles_serialized:
  "serialized s \<Longrightarrow> serialized (handleFiles files s)"
proof -
  have "serialized s \<Longrightarrow> serialized (fold queueFileForSending files s)"
    by (induction files arbitrary: s) (simp_all add: queueFileForSending_serialized)
  then show "serialized s \<Longrightarrow> serialized (handleFiles files s)"
    by (simp add: handleFiles_def)
qed

lemma removeAt_single: "length xs \<le> 1 \<Longrightarrow> k < length xs \<Longrightarrow> removeAt k xs = []"
  by (cases xs) (auto simp: removeAt_def)

lemma onload_serialized:
  assumes "serialized s"
  shows "serialized (onload k s)"
  using assms
  by (auto simp: serialized_def onload_def Let_def removeAt_single split: phase.splits)

lemma timerFires_serialized:
  "serialized s \<Longrightarrow> serialized (timerFires k s)"
  by (auto simp: serialized_def timerFires_def Let_def split: phase.splits)

lemma handleData_loops:
  "sendLoops (handleData p s d) = sendLoops s \<and> isSending (handleData p s d) = isSending s"
  by (cases d) (auto simp: handleData_def receiveFileChunkRaw_def receiveFileStart_def
      receiveFileEnd_def Let_def split: option.splits)

lemma step_serialized:
  assumes "serialized s"
  shows "serialized (step s e)"
proof (cases e)
  case (FilesChosen files)
  then show ?thesis using assms by (simp add: step_def handleFiles_serialized)
next
  case (ReaderLoaded k)
  then show ?thesis using assms by (simp add: step_def onload_serialized)
next
  case (ChunkTimer k)
  then show ?thesis using assms by (simp add: step_def timerFires_serialized)
next
  case QueueTimer
  have "serialized (processTransferQueue (s\<lparr>processTimers := processTimers s - 1\<rparr>))"
    by (rule processTransferQueue_serialized) (use assms in \<open>simp add: serialized_def\<close>)
  then show ?thesis using assms QueueTimer by (simp add: step_def)
next
  case (Opened p u)
  have "serialized (connOpen p u s)"
    unfolding connOpen_def Let_def
    by (rule processTransferQueue_serialized) (use assms in \<open>simp add: serialized_def\<close>)
  then show ?thesis using Opened by (simp add: step_def)
next
  case (Closed p)
  then show ?thesis using assms by (simp add: step_def connClose_def serialized_def)
next
  case (Drained p n)
  then show ?thesis using assms by (simp add: step_def drain_def serialized_def)
next
  case (Received p d)
  then show ?thesis using assms handleData_loops[of p s d] by (simp add: step_def serialized_def)
qed

lemma run_serialized: "serialized s \<Longrightarrow> serialized (run s es)"
  unfolding run_def by (induction es arbitrary: s) (simp_all add: step_serialized)

lemma newApp_serialized: "serialized newApp"
  by (simp add: serialized_def newApp_def)

lemma queue_while_sending:
  assumes "isSending s"
  shows "sendLoops (queueFileForSending f s) = sendLoops s"
    and "isSending (queueFileForSending f s)"
    and "sendingQueue (queueFileForSending f s) = sendingQueue s @ [f]"
  using assms by (simp_all add: queueFileForSending_def processTransferQueue_def)

lemma queue_all_while_sending:
  assumes "isSending s"
  shows "sendLoops (fold queueFileForSending files s) = sendLoops s
         \<and> isSending (fold queueFileForSending files s)"
  using assms by (induction files arbitrary: s) (simp_all add: queue_while_sending)

text \<open>
  Claim C3 (serialization), for the queue of \<open>VeloApp\<close>. Whatever happens to a fresh
  app, at most one \<open>sendFile\<close> closure is alive; and while one is, choosing more files
  starts no other: a file queued then waits at the end of \<open>sendingQueue\<close>.
\<close>

theorem one_sender_at_a_time:
  "length (sendLoops (run newApp es)) \<le> 1
   \<and> (sendLoops (run newApp es) \<noteq> [] \<longrightarrow>
        sendLoops (step (run newApp es) (FilesChosen files)) = sendLoops (run newApp es)
        \<and> sendingQueue (queueFileForSending f (run newApp es)) = sendingQueue (run newApp es) @ [f])"
proof -
  have s: "serialized (run newApp es)" using run_serialized[OF newApp_serialized] .
  then have "length (sendLoops (run newApp es)) \<le> 1" by (simp add: serialized_def)
  moreover have "sendLoops (step (run newApp es) (FilesChosen files)) = sendLoops (run newApp es)
        \<and> sendingQueue (queueFileForSending f (run newApp es)) = sendingQueue (run newApp es) @ [f]"
    if "sendLoops (run newApp es) \<noteq> []"
  proof -
    have "isSending (run newApp es)" using s that by (simp add: serialized_def)
    then show ?thesis
      using queue_all_while_sending[of "run newApp es" files] queue_while_sending(3)[of "run newApp es" f]
      by (simp add: step_def handleFiles_def)
  qed
  ultimately show ?thesis by blast
qed

theorem one_sender_at_a_time_witness:
  "sendLoops (run newApp waiting) \<noteq> []
   \<and> length (sendLoops (step (run newApp waiting) (FilesChosen [fileB]))) = 1
   \<and> sendingQueue (queueFileForSending fileB (run newApp waiting)) = [fileB]"
  using one_sender_at_a_time [of waiting "[fileB]" fileB]
  by (simp add: send_eval waiting_def)

text \<open>
  Claim C3 as stated fails on the framed path: \<open>FileTransferManager.sendFile\<close> has no
  queue and no lock, and \<open>PyShareApp.handleFiles\<close> calls it for every chosen file, so two
  files chosen together are both in status \<open>sending\<close>.
\<close>

theorem two_transfers_sending_counterexample:
  "sendingNow (handleFiles_ftm [(''t1'', fileA), (''t2'', fileB)] oneChannel) = [''t1'', ''t2'']"
  by (simp add: ftm_eval)


lemma sendToAll_total:
  "totalBuffered (sendToAll d cs) \<le> totalBuffered cs + length cs * byteLength d"
proof (induction cs)
  case Nil
  then show ?case by (simp add: sendToAll_def totalBuffered_def)
next
  case (Cons x cs)
  obtain p pinfo where x: "x = (p, pinfo)" by (cases x)
  have "buffered (pinfo\<lparr>pconn := conn_send d (pconn pinfo)\<rparr>) \<le> buffered pinfo + byteLength d"
    by (simp add: buffered_def conn_send_def split: option.splits)
  then show ?case using Cons x by (simp add: sendToAll_def totalBuffered_def)
qed








































lemma updateTransfer_frame:
  "rtc (updateTransfer t g m) = rtc m" "chunkLoops (updateTransfer t g m) = chunkLoops m"
  by (simp_all add: updateTransfer_def)






















lemma sendToAll_exact:
  assumes "\<forall>(p, pinfo) \<in> set cs. dataChannel (pconn pinfo) \<noteq> None"
  shows "totalBuffered (sendToAll d cs) = totalBuffered cs + length cs * byteLength d
         \<and> (\<forall>(p, pinfo) \<in> set (sendToAll d cs). dataChannel (pconn pinfo) \<noteq> None)"
  using assms
proof (induction cs)
  case Nil
  then show ?case by (simp add: sendToAll_def totalBuffered_def)
next
  case (Cons x cs)
  obtain p pinfo where x: "x = (p, pinfo)" by (cases x)
  obtain b where b: "dataChannel (pconn pinfo) = Some b" using Cons.prems x by auto
  have "buffered (pinfo\<lparr>pconn := conn_send d (pconn pinfo)\<rparr>) = buffered pinfo + byteLength d"
    using b by (simp add: buffered_def conn_send_def)
  then show ?case using Cons x b by (auto simp: sendToAll_def totalBuffered_def conn_send_def)
qed

lemma idleApp_connections:
  "(\<forall>(p, pinfo) \<in> set (connections (idleApp W)). dataChannel (pconn pinfo) \<noteq> None)
   \<and> totalBuffered (connections (idleApp W)) = 0
   \<and> length (connections (idleApp W)) = W"
  by (auto simp: idleApp_def newApp_def totalBuffered_def buffered_def sum_list_0 comp_def)







text \<open>
  The later \<open>velo-app.js\<close> scales its mark, to 4 MB for one target and 2 MB for two or
  more. That does not give a ceiling either: idle targets are never under backpressure, and
  the smallest chunk to \<open>W\<close> of them leaves \<open>W\<close> times 256 KB outstanding.
\<close>

lemma bufferThreshold_values:
  "bufferThreshold 1 = 4 * 1024 * 1024 \<and> (2 \<le> n \<longrightarrow> bufferThreshold n = 2 * 1024 * 1024)"
proof -
  have "4 / real n \<le> 2" if "2 \<le> n"
  proof -
    have "2 \<le> real n" using that by simp
    then show ?thesis by (simp add: field_simps)
  qed
  then show ?thesis by (auto simp: bufferThreshold_def max_def)
qed

lemma scaled_round:
  assumes "\<not> backpressure cs"
  shows "real (totalBuffered (sendToAll (Binary c) cs)) \<le> bufferThreshold (length cs) + real (length cs * length c)"
proof -
  have "totalBuffered (sendToAll (Binary c) cs) \<le> totalBuffered cs + length cs * length c"
    using sendToAll_total[of "Binary c" cs] by (simp add: byteLength_def)
  then have "real (totalBuffered (sendToAll (Binary c) cs)) \<le> real (totalBuffered cs) + real (length cs * length c)"
    by (metis of_nat_add of_nat_le_iff)
  then show ?thesis using assms by (simp add: backpressure_def)
qed

lemma idle_not_backpressure: "\<not> backpressure (connections (idleApp W))"
proof -
  have "0 \<le> bufferThreshold W" by (simp add: bufferThreshold_def)
  then show ?thesis using idleApp_connections[of W] by (simp add: backpressure_def)
qed

lemma idle_scaled_round:
  "totalBuffered (sendToAll (Binary (replicate minChunkSize 0)) (connections (idleApp W))) = W * minChunkSize"
  using sendToAll_exact[where cs = "connections (idleApp W)" and d = "Binary (replicate minChunkSize 0)"]
    idleApp_connections[of W]
  by (simp add: byteLength_def)

lemma scaled_unbounded:
  "\<not> (\<exists>ceiling. \<forall>W. totalBuffered (sendToAll (Binary (replicate minChunkSize 0)) (connections (idleApp W))) \<le> ceiling)"
proof
  assume "\<exists>ceiling. \<forall>W. totalBuffered (sendToAll (Binary (replicate minChunkSize 0)) (connections (idleApp W))) \<le> ceiling"
  then obtain ceiling where c: "\<And>W. totalBuffered (sendToAll (Binary (replicate minChunkSize 0))
      (connections (idleApp W))) \<le> ceiling" by blast
  have "(ceiling + 1) * minChunkSize \<le> ceiling" using c[of "ceiling + 1"] by (simp only: idle_scaled_round)
  then show False by (simp add: minChunkSize_def)
qed

lemma sentLists_update:
  assumes "map_of al k = Some v" "sent (pconn v') = sent (pconn v)"
  shows "map (\<lambda>(p, pinfo). sent (pconn pinfo)) (AList.update k v' al) = map (\<lambda>(p, pinfo). sent (pconn pinfo)) al"
  using assms by (induction al) auto

lemma handleData_sent: "sentLists (handleData p s d) = sentLists s"
proof (cases d)
  case (Binary c)
  then show ?thesis
    by (auto simp: sentLists_def handleData_def receiveFileChunkRaw_def Let_def split: option.splits)
next
  case (Handshake nm)
  then show ?thesis
    using sentLists_update[of "connections s" p]
    by (auto simp: sentLists_def handleData_def split: option.splits)
next
  case (FileStart i nm sz)
  then show ?thesis
    using sentLists_update[of "connections s" p]
    by (auto simp: sentLists_def handleData_def receiveFileStart_def split: option.splits)
next
  case (FileEnd i)
  then show ?thesis
    using sentLists_update[of "connections s" p]
    by (auto simp: sentLists_def handleData_def receiveFileEnd_def Let_def split: option.splits)
next
  case Unknown
  then show ?thesis by (simp add: handleData_def)
qed

lemma handleData_send_state:
  "sendLoops (handleData p s d) = sendLoops s \<and> isSending (handleData p s d) = isSending s
   \<and> sendingQueue (handleData p s d) = sendingQueue s"
  by (cases d) (auto simp: handleData_def receiveFileChunkRaw_def receiveFileStart_def
      receiveFileEnd_def Let_def split: option.splits)

lemma drain_sent: "sentLists (drain p n s) = sentLists s"
  by (auto simp: sentLists_def drain_def)

lemma frame_emitting:
  assumes "emitting s goal i f" "sendLoops s' = sendLoops s" "isSending s' = isSending s"
    "sendingQueue s' = sendingQueue s" "sentLists s' = sentLists s"
  shows "emitting s' goal i f"
  using assms by (auto simp: emitting_def split: list.splits)

lemma emitting_cases:
  assumes "emitting s goal i f"
  obtains (finished) "sendLoops s = []" "\<not> isSending s" "sentLists s = goal" "sendingQueue s = []"
  | (busy) l where "sendLoops s = [l]" "isSending s" "lid l = i" "lfile l = f" "sendingQueue s = []"
      "\<forall>c. lphase l = ReaderPending c \<longrightarrow> c = fileSlice f (loffset l) (loffset l + chunkSize)"
      "map (\<lambda>xs. xs @ sendChunksFrom i f (loffset l)) (sentLists s) = goal"
  using assms by (auto simp: emitting_def split: list.splits)

lemma processTransferQueue_emitting:
  assumes "emitting s goal i f"
  shows "processTransferQueue s = s"
  using assms by (auto simp: emitting_def processTransferQueue_def)

lemma timerFires_emitting:
  assumes "emitting s goal i f"
  shows "emitting (timerFires k s) goal i f"
  using assms
proof (cases rule: emitting_cases)
  case finished
  then show ?thesis using assms by (simp add: timerFires_def)
next
  case (busy l)
  show ?thesis
  proof (cases "k = 0 \<and> lphase l = TimerPending")
    case False
    then have "timerFires k s = s" using busy(1) by (auto simp: timerFires_def Let_def split: phase.splits)
    then show ?thesis using assms by simp
  next
    case True
    then have tf: "timerFires k s = s\<lparr>sendLoops := [sendNextChunk l s]\<rparr>"
      using busy(1) by (simp add: timerFires_def Let_def)
    show ?thesis unfolding tf using busy
      by (auto simp: emitting_def sendNextChunk_def sentLists_def)
  qed
qed

lemma onload_emitting:
  assumes "emitting s goal i f"
  shows "emitting (onload k s) goal i f"
  using assms
proof (cases rule: emitting_cases)
  case finished
  then show ?thesis using assms by (simp add: onload_def)
next
  case (busy l)
  show ?thesis
  proof (cases "k = 0 \<and> lphase l \<noteq> TimerPending")
    case False
    then have "onload k s = s" using busy(1) by (auto simp: onload_def Let_def split: phase.splits)
    then show ?thesis using assms by simp
  next
    case True
    let ?c = "fileSlice f (loffset l) (loffset l + chunkSize)"
    have ph: "lphase l = ReaderPending ?c" using True busy(6) by (cases "lphase l") auto
    let ?offset = "loffset l + length ?c"
    have sl: "map (\<lambda>(p, pinfo). sent (pconn pinfo)) (sendToAll d cs)
        = map (\<lambda>xs. xs @ [d]) (map (\<lambda>(p, pinfo). sent (pconn pinfo)) cs)" for d cs
      by (simp add: sendToAll_def conn_send_def comp_def case_prod_unfold)
    show ?thesis
    proof (cases "?offset < fsize f")
      case True
      have eq: "sendChunksFrom i f (loffset l) = Binary ?c # sendChunksFrom i f ?offset"
        using True by (subst sendChunksFrom.simps) (simp add: Let_def)
      show ?thesis
        using busy ph True \<open>k = 0 \<and> lphase l \<noteq> TimerPending\<close>
        by (auto simp: emitting_def onload_def Let_def sentLists_def sl eq sendNextChunk_def comp_def)
    next
      case False
      have eq: "sendChunksFrom i f (loffset l) = [Binary ?c, FileEnd i]"
        using False by (subst sendChunksFrom.simps) (simp add: Let_def)
      show ?thesis
        using busy ph False \<open>k = 0 \<and> lphase l \<noteq> TimerPending\<close>
        by (auto simp: emitting_def onload_def Let_def sentLists_def sl eq removeAt_def comp_def)
    qed
  qed
qed

lemma step_emitting:
  assumes "emitting s goal i f" "fixedFanout [e]" "noFilesChosen [e]"
  shows "emitting (step s e) goal i f"
proof (cases e)
  case (FilesChosen files)
  then show ?thesis using assms(3) by (simp add: noFilesChosen_def)
next
  case (ReaderLoaded k)
  then show ?thesis using assms by (simp add: step_def onload_emitting)
next
  case (ChunkTimer k)
  then show ?thesis using assms by (simp add: step_def timerFires_emitting)
next
  case QueueTimer
  have e: "emitting (s\<lparr>processTimers := processTimers s - 1\<rparr>) goal i f"
    by (rule frame_emitting[OF assms(1)]) (simp_all add: sentLists_def)
  show ?thesis using assms(1) e QueueTimer processTransferQueue_emitting[OF e]
    by (simp add: step_def)
next
  case (Opened p u)
  then show ?thesis using assms(2) by (simp add: fixedFanout_def)
next
  case (Closed p)
  then show ?thesis using assms(2) by (simp add: fixedFanout_def)
next
  case (Drained p n)
  have "emitting (drain p n s) goal i f"
    by (rule frame_emitting[OF assms(1)]) (simp_all add: drain_sent, simp_all add: drain_def)
  then show ?thesis using Drained by (simp add: step_def)
next
  case (Received p d)
  have "emitting (handleData p s d) goal i f"
    by (rule frame_emitting[OF assms(1)]) (simp_all add: handleData_sent handleData_send_state)
  then show ?thesis using Received by (simp add: step_def)
qed

lemma run_emitting:
  assumes "emitting s goal i f" "fixedFanout es" "noFilesChosen es"
  shows "emitting (run s es) goal i f"
  using assms
proof (induction es arbitrary: s)
  case Nil
  then show ?case by (simp add: run_def)
next
  case (Cons e es)
  have "emitting (step s e) goal i f"
    using step_emitting[OF Cons.prems(1)] Cons.prems(2,3) by (simp add: fixedFanout_def noFilesChosen_def)
  then have "emitting (run (step s e) es) goal i f"
    using Cons.IH Cons.prems(2,3) by (simp add: fixedFanout_def noFilesChosen_def)
  then show ?case by (simp add: run_def)
qed

lemma sendFile_emitting:
  assumes "sendLoops s = []" "sendingQueue s = []"
  shows "emitting (sendFile f s) (map (\<lambda>xs. xs @ sendFileMessages (transferId s) f) (sentLists s))
           (transferId s + 1) f"
  using assms
  by (auto simp: emitting_def sendFile_def Let_def sendNextChunk_def sentLists_def sendFileMessages_def
      sendToAll_def conn_send_def comp_def case_prod_unfold)

text \<open>
  The closures and the message list agree: when a file is queued in an idle app and its
  closure has run to its end, under any schedule of timers, reader results, drains and
  arrivals with the connections fixed, every connection has been handed exactly
  \<open>sendFileMessages\<close> after what it had before.
\<close>

lemma sendFile_emits_sendFileMessages:
  assumes "sendLoops s = []" "\<not> isSending s" "sendingQueue s = []"
    and "fixedFanout es" "noFilesChosen es"
    and "sendLoops (run (queueFileForSending f s) es) = []"
  shows "sentLists (run (queueFileForSending f s) es)
           = map (\<lambda>xs. xs @ sendFileMessages (transferId s) f) (sentLists s)"
proof -
  have "s\<lparr>sendingQueue := []\<rparr> = s\<lparr>sendingQueue := sendingQueue s\<rparr>"
    by (simp only: assms(3))
  then have rs: "s\<lparr>sendingQueue := []\<rparr> = s" by simp
  have "queueFileForSending f s = sendFile f (s\<lparr>sendingQueue := []\<rparr>)"
    using assms(2,3) by (simp add: queueFileForSending_def processTransferQueue_def)
  then have q: "queueFileForSending f s = sendFile f s" by (simp only: rs)
  have "emitting (sendFile f s) (map (\<lambda>xs. xs @ sendFileMessages (transferId s) f) (sentLists s))
           (transferId s + 1) f"
    by (rule sendFile_emitting[OF assms(1,3)])
  then have "emitting (run (sendFile f s) es)
      (map (\<lambda>xs. xs @ sendFileMessages (transferId s) f) (sentLists s)) (transferId s + 1) f"
    using run_emitting assms(4,5) by blast
  then show ?thesis using assms(6) q by (simp add: emitting_def)
qed

subsection \<open>Handshake coordinator\<close>













end
